theory Spec2Isabelle
  imports Complex_Main "HOL-Library.Word"
begin

section \<open>Data model (order_book.h)\<close>

text \<open>
  \<open>uint64_t\<close> is a 64-bit word: \<open>+\<close>, \<open>-\<close> wrap, comparisons and \<open>min\<close> are unsigned.
  A \<open>double\<close> price is modelled by its value as a rational number: the book only copies
  and compares prices, and on the finite doubles the comparisons of C++ are the order of
  the values. NaN, for which \<open>std::map\<close> has no strict weak order, and the infinities are
  outside the model.
\<close>

type_synonym u64 = "64 word"

text \<open>An \<open>Order*\<close>: the address of an order record in the pool.\<close>

type_synonym handle = nat

record Order =
  order_id :: u64
  is_buy :: bool
  price :: rat
  quantity :: u64
  timestamp_ns :: u64

text \<open>\<open>struct PriceLevel\<close>, the element type of a snapshot.\<close>

record PriceLevel =
  pl_price :: rat
  pl_total_quantity :: u64

text \<open>
  \<open>struct PriceLevelData\<close>: the \<open>std::list<Order*>\<close> is a list of handles, front first.
\<close>

record PriceLevelData =
  pld_price :: rat
  orders :: "handle list"
  total_quantity :: u64

definition PriceLevelData_ctor :: "rat \<Rightarrow> PriceLevelData" where
  "PriceLevelData_ctor p = \<lparr>pld_price = p, orders = [], total_quantity = 0\<rparr>"

text \<open>
  \<open>struct OrderLocation\<close>. A list iterator designates the list node that holds the
  order's pointer; it is modelled by the handle stored in that node.
\<close>

record OrderLocation =
  loc_order :: handle
  list_iter :: handle
  is_bid :: bool
  loc_price :: rat

text \<open>
  \<open>MemoryPool<Order>\<close> as an explicit store: \<open>cells\<close> maps every address to the record
  stored there. \<open>allocate\<close> hands out storage that no live order occupies and
  value-initialises it; the model hands out the addresses \<open>0, 1, 2, \<dots>\<close> in turn
  and \<open>allocated\<close> counts them. \<open>deallocate\<close> only links the storage into the pool's
  free list; the book never reads a released record, and the model leaves the store as it is.
  The model does not hand out released storage again: which address an order gets is not
  observable through the book.
\<close>

record MemoryPool =
  cells :: "handle \<Rightarrow> Order"
  allocated :: nat

definition Order_zero :: Order where
  "Order_zero = \<lparr>order_id = 0, is_buy = False, price = 0, quantity = 0, timestamp_ns = 0\<rparr>"

definition MemoryPool_ctor :: MemoryPool where
  "MemoryPool_ctor = \<lparr>cells = (\<lambda>_. Order_zero), allocated = 0\<rparr>"

definition allocate :: "MemoryPool \<Rightarrow> handle \<times> MemoryPool" where
  "allocate pool =
     (allocated pool,
      pool\<lparr>cells := (cells pool)(allocated pool := Order_zero),
           allocated := Suc (allocated pool)\<rparr>)"

definition deallocate :: "MemoryPool \<Rightarrow> handle \<Rightarrow> MemoryPool" where
  "deallocate pool element = pool"

text \<open>The line that \<open>execute_trade\<close> prints: the trade event.\<close>

record Trade =
  buy_order_id :: u64
  sell_order_id :: u64
  trade_qty :: u64
  trade_price :: rat

text \<open>
  A \<open>std::map<double, PriceLevelData, Compare>\<close> is the list of its entries in iteration
  order: \<open>begin()\<close> is the head. Bids use \<open>std::greater\<close>, asks \<open>std::less\<close>.
\<close>

type_synonym side_index = "(rat \<times> PriceLevelData) list"

fun map_emplace :: "(rat \<Rightarrow> rat \<Rightarrow> bool) \<Rightarrow> rat \<Rightarrow> PriceLevelData \<Rightarrow> side_index \<Rightarrow> side_index" where
  "map_emplace cmp k v [] = [(k, v)]"
| "map_emplace cmp k v ((k', v') # m) =
     (if cmp k k' then (k, v) # (k', v') # m
      else if k = k' then (k', v') # m
      else (k', v') # map_emplace cmp k v m)"

text \<open>Assignment through the iterator that \<open>find k\<close> returned.\<close>

fun map_modify :: "rat \<Rightarrow> (PriceLevelData \<Rightarrow> PriceLevelData) \<Rightarrow> side_index \<Rightarrow> side_index" where
  "map_modify k f [] = []"
| "map_modify k f ((k', v') # m) =
     (if k = k' then (k', f v') # m else (k', v') # map_modify k f m)"

text \<open>\<open>erase\<close> of the iterator that \<open>find k\<close> returned.\<close>

fun map_erase :: "rat \<Rightarrow> side_index \<Rightarrow> side_index" where
  "map_erase k [] = []"
| "map_erase k ((k', v') # m) = (if k = k' then m else (k', v') # map_erase k m)"

text \<open>
  The book. \<open>trade_log\<close> is the output stream restricted to the TRADE lines, oldest first.
\<close>

record OrderBook =
  bids :: side_index
  asks :: side_index
  order_lookup :: "u64 \<rightharpoonup> OrderLocation"
  order_pool :: MemoryPool
  total_orders_added :: u64
  total_orders_cancelled :: u64
  total_orders_matched :: u64
  trade_log :: "Trade list"

definition OrderBook_ctor :: OrderBook where
  "OrderBook_ctor =
     \<lparr>bids = [], asks = [], order_lookup = Map.empty, order_pool = MemoryPool_ctor,
      total_orders_added = 0, total_orders_cancelled = 0, total_orders_matched = 0,
      trade_log = []\<rparr>"

text \<open>\<open>p->field\<close> for an \<open>Order* p\<close>.\<close>

definition deref :: "OrderBook \<Rightarrow> handle \<Rightarrow> Order" where
  "deref s p = cells (order_pool s) p"

definition set_quantity :: "OrderBook \<Rightarrow> handle \<Rightarrow> u64 \<Rightarrow> OrderBook" where
  "set_quantity s p q =
     s\<lparr>order_pool := (order_pool s)\<lparr>cells := (cells (order_pool s))(p := (deref s p)\<lparr>quantity := q\<rparr>)\<rparr>\<rparr>"

section \<open>Matching (order_book.cpp)\<close>

definition execute_trade :: "OrderBook \<Rightarrow> handle \<Rightarrow> handle \<Rightarrow> u64 \<Rightarrow> OrderBook" where
  "execute_trade s buy_order sell_order qty =
     s\<lparr>total_orders_matched := total_orders_matched s + 1,
       trade_log := trade_log s @
         [\<lparr>buy_order_id = order_id (deref s buy_order),
           sell_order_id = order_id (deref s sell_order),
           trade_qty = qty,
           trade_price = price (deref s sell_order)\<rparr>]\<rparr>"

text \<open>The loop of \<open>match_orders\<close> goes on: none of its three exits is taken.\<close>

definition crossing :: "OrderBook \<Rightarrow> bool" where
  "crossing s =
     (bids s \<noteq> [] \<and> asks s \<noteq> [] \<and>
      \<not> fst (hd (bids s)) < fst (hd (asks s)) \<and>
      orders (snd (hd (bids s))) \<noteq> [] \<and> orders (snd (hd (asks s))) \<noteq> [])"

text \<open>
  "Update quantities": both orders and both best levels lose the traded quantity.
\<close>

definition sub_head_total :: "u64 \<Rightarrow> side_index \<Rightarrow> side_index" where
  "sub_head_total q m =
     (case m of [] \<Rightarrow> []
      | (k, l) # rest \<Rightarrow> (k, l\<lparr>total_quantity := total_quantity l - q\<rparr>) # rest)"

definition update_quantities :: "OrderBook \<Rightarrow> handle \<Rightarrow> handle \<Rightarrow> u64 \<Rightarrow> OrderBook" where
  "update_quantities s buy_order sell_order qty =
     (let s2 = set_quantity s buy_order (quantity (deref s buy_order) - qty);
          s3 = set_quantity s2 sell_order (quantity (deref s2 sell_order) - qty);
          s4 = s3\<lparr>bids := sub_head_total qty (bids s3)\<rparr>
      in s4\<lparr>asks := sub_head_total qty (asks s4)\<rparr>)"

text \<open>
  "Remove fully filled orders": \<open>pop_front\<close> on the best level of a side index, and
  \<open>erase\<close> of that level when its list is empty afterwards.
\<close>

definition pop_filled :: "side_index \<Rightarrow> side_index" where
  "pop_filled m =
     (case m of [] \<Rightarrow> []
      | (k, l) # rest \<Rightarrow>
          (let l' = l\<lparr>orders := tl (orders l)\<rparr>
           in if orders l' = [] then rest else (k, l') # rest))"

definition remove_filled_buy :: "OrderBook \<Rightarrow> handle \<Rightarrow> OrderBook" where
  "remove_filled_buy s buy_order =
     (if quantity (deref s buy_order) = 0
      then s\<lparr>order_lookup := (order_lookup s)(order_id (deref s buy_order) := None),
             bids := pop_filled (bids s),
             order_pool := deallocate (order_pool s) buy_order\<rparr>
      else s)"

definition remove_filled_sell :: "OrderBook \<Rightarrow> handle \<Rightarrow> OrderBook" where
  "remove_filled_sell s sell_order =
     (if quantity (deref s sell_order) = 0
      then s\<lparr>order_lookup := (order_lookup s)(order_id (deref s sell_order) := None),
             asks := pop_filled (asks s),
             order_pool := deallocate (order_pool s) sell_order\<rparr>
      else s)"

text \<open>One pass through the body of the loop, from a state where the loop goes on.\<close>

definition match_step :: "OrderBook \<Rightarrow> OrderBook" where
  "match_step s =
     (let buy_order = hd (orders (snd (hd (bids s))));
          sell_order = hd (orders (snd (hd (asks s))));
          qty = min (quantity (deref s buy_order)) (quantity (deref s sell_order));
          s1 = execute_trade s buy_order sell_order qty;
          s2 = update_quantities s1 buy_order sell_order qty;
          s3 = remove_filled_buy s2 buy_order
      in remove_filled_sell s3 sell_order)"

text \<open>
  The loop. Nothing in its text bounds the number of passes, so the model returns an
  option: \<open>None\<close> stands for a loop that never exits.
\<close>

partial_function (option) match_orders :: "OrderBook \<Rightarrow> OrderBook option" where
  "match_orders s = (if crossing s then match_orders (match_step s) else Some s)"

section \<open>Public operations (order_book.cpp)\<close>

text \<open>
  The two branches of \<open>add_order\<close> differ in the side index only: find the level of the
  order's price or create it, append the order, add its quantity to the level's total.
\<close>

definition enqueue :: "(rat \<Rightarrow> rat \<Rightarrow> bool) \<Rightarrow> Order \<Rightarrow> handle \<Rightarrow> side_index \<Rightarrow> side_index" where
  "enqueue cmp ord new_order m =
     (let m1 = (case map_of m (price ord) of
                  None \<Rightarrow> map_emplace cmp (price ord) (PriceLevelData_ctor (price ord)) m
                | Some _ \<Rightarrow> m)
      in map_modify (price ord)
           (\<lambda>l. l\<lparr>orders := orders l @ [new_order],
                  total_quantity := total_quantity l + quantity ord\<rparr>) m1)"

text \<open>\<open>add_order\<close> up to its last statement, the call of \<open>match_orders\<close>.\<close>

definition insert_order :: "OrderBook \<Rightarrow> Order \<Rightarrow> OrderBook" where
  "insert_order s ord =
     (let (new_order, pool1) = allocate (order_pool s);
          pool2 = pool1\<lparr>cells := (cells pool1)(new_order := ord)\<rparr>;
          s1 = s\<lparr>order_pool := pool2, total_orders_added := total_orders_added s + 1\<rparr>;
          loc = \<lparr>loc_order = new_order, list_iter = new_order,
                 is_bid = is_buy ord, loc_price = price ord\<rparr>
      in if is_buy ord
         then s1\<lparr>bids := enqueue (>) ord new_order (bids s1),
                 order_lookup := (order_lookup s1)(order_id ord \<mapsto> loc)\<rparr>
         else s1\<lparr>asks := enqueue (<) ord new_order (asks s1),
                 order_lookup := (order_lookup s1)(order_id ord \<mapsto> loc)\<rparr>)"

definition add_order :: "OrderBook \<Rightarrow> Order \<Rightarrow> OrderBook option" where
  "add_order s ord = match_orders (insert_order s ord)"

text \<open>
  One branch of \<open>remove_order_from_book\<close>, inside \<open>if (it != end())\<close>: \<open>q\<close> is
  \<open>loc.order->quantity\<close>, \<open>it\<close> the list iterator.
\<close>

definition unlink :: "rat \<Rightarrow> handle \<Rightarrow> u64 \<Rightarrow> side_index \<Rightarrow> side_index" where
  "unlink k it q m =
     (let m1 = map_modify k
                 (\<lambda>l. l\<lparr>total_quantity := total_quantity l - q,
                        orders := remove1 it (orders l)\<rparr>) m
      in case map_of m1 k of
           None \<Rightarrow> m1
         | Some l \<Rightarrow> if orders l = [] then map_erase k m1 else m1)"

definition remove_order_from_book :: "OrderBook \<Rightarrow> OrderLocation \<Rightarrow> OrderBook" where
  "remove_order_from_book s loc =
     (if is_bid loc
      then (case map_of (bids s) (loc_price loc) of
              None \<Rightarrow> s
            | Some _ \<Rightarrow>
                s\<lparr>bids := unlink (loc_price loc) (list_iter loc)
                            (quantity (deref s (loc_order loc))) (bids s),
                  order_pool := deallocate (order_pool s) (loc_order loc)\<rparr>)
      else (case map_of (asks s) (loc_price loc) of
              None \<Rightarrow> s
            | Some _ \<Rightarrow>
                s\<lparr>asks := unlink (loc_price loc) (list_iter loc)
                            (quantity (deref s (loc_order loc))) (asks s),
                  order_pool := deallocate (order_pool s) (loc_order loc)\<rparr>))"

definition cancel_order :: "OrderBook \<Rightarrow> u64 \<Rightarrow> bool \<times> OrderBook" where
  "cancel_order s oid =
     (case order_lookup s oid of
        None \<Rightarrow> (False, s)
      | Some loc \<Rightarrow>
          (let s1 = remove_order_from_book s loc
           in (True, s1\<lparr>order_lookup := (order_lookup s1)(oid := None),
                        total_orders_cancelled := total_orders_cancelled s1 + 1\<rparr>)))"

text \<open>"Update total quantity at price level" of \<open>amend_order\<close>, for one side index.\<close>

definition retotal :: "rat \<Rightarrow> u64 \<Rightarrow> u64 \<Rightarrow> side_index \<Rightarrow> side_index" where
  "retotal k old_quantity new_quantity m =
     (case map_of m k of
        None \<Rightarrow> m
      | Some _ \<Rightarrow>
          map_modify k
            (\<lambda>l. l\<lparr>total_quantity := total_quantity l - old_quantity + new_quantity\<rparr>) m)"

definition amend_order :: "OrderBook \<Rightarrow> u64 \<Rightarrow> rat \<Rightarrow> u64 \<Rightarrow> (bool \<times> OrderBook) option" where
  "amend_order s oid new_price new_quantity =
     (case order_lookup s oid of
        None \<Rightarrow> Some (False, s)
      | Some loc \<Rightarrow>
          (let ord = loc_order loc;
               old_price = price (deref s ord);
               old_quantity = quantity (deref s ord)
           in if new_price \<noteq> old_price
              then (let new_order = (deref s ord)\<lparr>price := new_price, quantity := new_quantity\<rparr>;
                        s1 = snd (cancel_order s oid)
                    in map_option (Pair True) (add_order s1 new_order))
              else if new_quantity \<noteq> old_quantity
              then (let s1 = set_quantity s ord new_quantity;
                        s2 = (if is_bid loc
                              then s1\<lparr>bids := retotal (loc_price loc) old_quantity new_quantity (bids s1)\<rparr>
                              else s1\<lparr>asks := retotal (loc_price loc) old_quantity new_quantity (asks s1)\<rparr>)
                    in map_option (Pair True) (match_orders s2))
              else Some (True, s)))"

definition snapshot_side :: "nat \<Rightarrow> side_index \<Rightarrow> PriceLevel list" where
  "snapshot_side depth m =
     take depth (map (\<lambda>(k, l). \<lparr>pl_price = k, pl_total_quantity = total_quantity l\<rparr>) m)"

definition get_snapshot :: "OrderBook \<Rightarrow> nat \<Rightarrow> PriceLevel list \<times> PriceLevel list" where
  "get_snapshot s depth = (snapshot_side depth (bids s), snapshot_side depth (asks s))"

definition get_best_bid :: "OrderBook \<Rightarrow> (rat \<times> u64) option" where
  "get_best_bid s = (case bids s of [] \<Rightarrow> None | (k, l) # _ \<Rightarrow> Some (k, total_quantity l))"

definition get_best_ask :: "OrderBook \<Rightarrow> (rat \<times> u64) option" where
  "get_best_ask s = (case asks s of [] \<Rightarrow> None | (k, l) # _ \<Rightarrow> Some (k, total_quantity l))"

definition clear :: "OrderBook \<Rightarrow> OrderBook" where
  "clear s =
     (let pool1 = fold (\<lambda>e pool. fold (\<lambda>p pool. deallocate pool p) (orders (snd e)) pool)
                    (bids s) (order_pool s);
          pool2 = fold (\<lambda>e pool. fold (\<lambda>p pool. deallocate pool p) (orders (snd e)) pool)
                    (asks s) pool1
      in s\<lparr>bids := [], asks := [], order_lookup := Map.empty, order_pool := pool2,
           total_orders_added := 0, total_orders_cancelled := 0, total_orders_matched := 0\<rparr>)"

section \<open>Sequences of public operations\<close>

datatype command =
    AddOrder Order
  | CancelOrder u64
  | AmendOrder u64 rat u64
  | Clear

fun exec :: "command \<Rightarrow> OrderBook \<Rightarrow> OrderBook option" where
  "exec (AddOrder ord) s = add_order s ord"
| "exec (CancelOrder oid) s = Some (snd (cancel_order s oid))"
| "exec (AmendOrder oid new_price new_quantity) s =
     map_option snd (amend_order s oid new_price new_quantity)"
| "exec Clear s = Some (clear s)"

fun run :: "command list \<Rightarrow> OrderBook \<Rightarrow> OrderBook option" where
  "run [] s = Some s"
| "run (c # cs) s = (case exec c s of None \<Rightarrow> None | Some s' \<Rightarrow> run cs s')"

text \<open>The number of orders queued in the book.\<close>

definition queued :: "side_index \<Rightarrow> nat" where
  "queued m = sum_list (map (\<lambda>e. length (orders (snd e))) m)"

definition live_orders :: "OrderBook \<Rightarrow> nat" where
  "live_orders s = queued (bids s) + queued (asks s)"

section \<open>Invariants and auxiliary notions\<close>

text \<open>
  The handles queued in a side index: level by level in the order of the index, each level
  from the front of its queue to the back.
\<close>

definition handles :: "side_index \<Rightarrow> handle list" where
  "handles m = concat (map (\<lambda>e. orders (snd e)) m)"

text \<open>
  A level is in order when its queue is not empty and its \<open>total_quantity\<close> is the
  (\<open>uint64_t\<close>) sum of the quantities of the orders queued in it.
\<close>

definition level_ok :: "OrderBook \<Rightarrow> PriceLevelData \<Rightarrow> bool" where
  "level_ok s l \<longleftrightarrow>
     orders l \<noteq> [] \<and> total_quantity l = sum_list (map (\<lambda>p. quantity (deref s p)) (orders l))"

definition levels_ok :: "OrderBook \<Rightarrow> side_index \<Rightarrow> bool" where
  "levels_ok s m \<longleftrightarrow> (\<forall>e \<in> set m. level_ok s (snd e))"

text \<open>
  Every locator entry points to a queued order: the order has the entry's id, and its
  handle is in the queue of the level that the entry's side and price designate.
\<close>

definition locator_ok :: "OrderBook \<Rightarrow> bool" where
  "locator_ok s \<longleftrightarrow>
     (\<forall>i loc. order_lookup s i = Some loc \<longrightarrow>
        list_iter loc = loc_order loc \<and>
        order_id (deref s (loc_order loc)) = i \<and>
        (\<exists>l. map_of (if is_bid loc then bids s else asks s) (loc_price loc) = Some l \<and>
             loc_order loc \<in> set (orders l)))"

text \<open>
  A well-formed book: the side indices are ordered by their comparators, every order record
  is queued at most once and was handed out by the pool, the levels and the locator are in
  order. Every sequence of public operations keeps the book well formed, also between the
  insertion of an order and the matching that follows it, where the book may be crossed.
\<close>

definition book_ok :: "OrderBook \<Rightarrow> bool" where
  "book_ok s \<longleftrightarrow>
     sorted_wrt (>) (map fst (bids s)) \<and> sorted_wrt (<) (map fst (asks s)) \<and>
     distinct (handles (bids s) @ handles (asks s)) \<and>
     (\<forall>p \<in> set (handles (bids s) @ handles (asks s)). p < allocated (order_pool s)) \<and>
     levels_ok s (bids s) \<and> levels_ok s (asks s) \<and> locator_ok s"

text \<open>The best bid is priced below the best ask, when there are both.\<close>

definition uncrossed :: "OrderBook \<Rightarrow> bool" where
  "uncrossed s \<longleftrightarrow> (bids s \<noteq> [] \<and> asks s \<noteq> [] \<longrightarrow> fst (hd (bids s)) < fst (hd (asks s)))"

text \<open>The heads of the two best levels and the quantity that a pass trades.\<close>

definition buy_head :: "OrderBook \<Rightarrow> handle" where
  "buy_head s = hd (orders (snd (hd (bids s))))"

definition sell_head :: "OrderBook \<Rightarrow> handle" where
  "sell_head s = hd (orders (snd (hd (asks s))))"

definition fill_qty :: "OrderBook \<Rightarrow> u64" where
  "fill_qty s = min (quantity (deref s (buy_head s))) (quantity (deref s (sell_head s)))"

text \<open>
  A side index after a pass: \<open>filled\<close> tells whether the head order was filled completely.
\<close>

definition after_fill :: "bool \<Rightarrow> u64 \<Rightarrow> side_index \<Rightarrow> side_index" where
  "after_fill filled q m =
     (if filled then pop_filled (sub_head_total q m) else sub_head_total q m)"

text \<open>Whether a pass fills the head order of the best bid or ask level completely.\<close>

definition buy_filled :: "OrderBook \<Rightarrow> bool" where
  "buy_filled s \<longleftrightarrow> quantity (deref s (buy_head s)) - fill_qty s = 0"

definition sell_filled :: "OrderBook \<Rightarrow> bool" where
  "sell_filled s \<longleftrightarrow> quantity (deref s (sell_head s)) - fill_qty s = 0"

text \<open>\<open>push_back\<close> of an order on a level, with the update of the level's total.\<close>

definition push_order :: "handle \<Rightarrow> u64 \<Rightarrow> PriceLevelData \<Rightarrow> PriceLevelData" where
  "push_order h q l = l\<lparr>orders := orders l @ [h], total_quantity := total_quantity l + q\<rparr>"

text \<open>
  The handle that the next \<open>allocate\<close> returns, and the locator entry that \<open>add_order\<close>
  stores for an order placed there.
\<close>

definition new_handle :: "OrderBook \<Rightarrow> handle" where
  "new_handle s = allocated (order_pool s)"

definition new_location :: "OrderBook \<Rightarrow> Order \<Rightarrow> OrderLocation" where
  "new_location s ord =
     \<lparr>loc_order = new_handle s, list_iter = new_handle s, is_bid = is_buy ord, loc_price = price ord\<rparr>"

text \<open>A level without the order at \<open>it\<close>, whose quantity was \<open>q\<close>.\<close>

definition drop_order :: "handle \<Rightarrow> u64 \<Rightarrow> PriceLevelData \<Rightarrow> PriceLevelData" where
  "drop_order it q l = l\<lparr>total_quantity := total_quantity l - q, orders := remove1 it (orders l)\<rparr>"

text \<open>The side index that a locator entry points into.\<close>

definition side_of :: "OrderBook \<Rightarrow> OrderLocation \<Rightarrow> side_index" where
  "side_of s e = (if is_bid e then bids s else asks s)"

text \<open>The book after the quantity-only branch of \<open>amend_order\<close>, before matching.\<close>

definition requantified :: "OrderBook \<Rightarrow> OrderLocation \<Rightarrow> u64 \<Rightarrow> OrderBook" where
  "requantified s e new_quantity =
     (let s1 = set_quantity s (loc_order e) new_quantity
      in if is_bid e
         then s1\<lparr>bids := retotal (loc_price e) (quantity (deref s (loc_order e))) new_quantity (bids s1)\<rparr>
         else s1\<lparr>asks := retotal (loc_price e) (quantity (deref s (loc_order e))) new_quantity (asks s1)\<rparr>)"

text \<open>The new total of the amended order's level.\<close>

definition set_total :: "u64 \<Rightarrow> u64 \<Rightarrow> PriceLevelData \<Rightarrow> PriceLevelData" where
  "set_total old_quantity new_quantity l =
     l\<lparr>total_quantity := total_quantity l - old_quantity + new_quantity\<rparr>"

text \<open>
  From \<open>s\<close> to \<open>s'\<close> the trades \<open>new\<close> were emitted, and \<open>total_orders_matched\<close> was
  incremented once for each.
\<close>

definition emitted :: "OrderBook \<Rightarrow> OrderBook \<Rightarrow> Trade list \<Rightarrow> bool" where
  "emitted s s' new \<longleftrightarrow>
     trade_log s' = trade_log s @ new \<and>
     total_orders_matched s' = total_orders_matched s + of_nat (length new)"

text \<open>The two order ids and the price of a trade event.\<close>

definition parties :: "Trade \<Rightarrow> u64 \<times> u64 \<times> rat" where
  "parties t = (buy_order_id t, sell_order_id t, trade_price t)"

text \<open>
  The order \<open>h\<close> is alone in the best bid level, and every other bid level is priced
  below every ask level: the book as a crossing buy order finds it and leaves it.
\<close>

definition buy_aggressor :: "OrderBook \<Rightarrow> handle \<Rightarrow> bool" where
  "buy_aggressor s h \<longleftrightarrow>
     (\<exists>k l rest. bids s = (k, l) # rest \<and> orders l = [h] \<and>
        (\<forall>b \<in> set rest. \<forall>a \<in> set (asks s). fst b < fst a))"

definition sell_aggressor :: "OrderBook \<Rightarrow> handle \<Rightarrow> bool" where
  "sell_aggressor s h \<longleftrightarrow>
     (\<exists>k l rest. asks s = (k, l) # rest \<and> orders l = [h] \<and>
        (\<forall>a \<in> set rest. \<forall>b \<in> set (bids s). fst b < fst a))"

text \<open>
  Handles are handed out in increasing order, so a queue holds its orders in the order in
  which \<open>add_order\<close> received them exactly when its handles increase from front to back.
\<close>

definition fifo_side :: "side_index \<Rightarrow> bool" where
  "fifo_side m \<longleftrightarrow> (\<forall>e \<in> set m. sorted_wrt (<) (orders (snd e)))"

definition fifo_ok :: "OrderBook \<Rightarrow> bool" where
  "fifo_ok s \<longleftrightarrow> fifo_side (bids s) \<and> fifo_side (asks s)"

section \<open>Sample orders and books\<close>

abbreviation big_1 :: Order where
  "big_1 \<equiv> \<lparr>order_id = 1, is_buy = True, price = 100, quantity = 9223372036854775808,
            timestamp_ns = 0\<rparr>"

abbreviation big_2 :: Order where
  "big_2 \<equiv> \<lparr>order_id = 2, is_buy = True, price = 100, quantity = 9223372036854775808,
            timestamp_ns = 0\<rparr>"

text \<open>The book with two bids of \<open>2^63\<close> queued at 100.\<close>

abbreviation two_big :: OrderBook where
  "two_big \<equiv> insert_order (insert_order OrderBook_ctor big_1) big_2"

text \<open>
  Sample orders, in the notation of the driver: \<open>Order(id, buy, price, quantity, timestamp)\<close>.
\<close>

abbreviation bid_1 :: Order where
  "bid_1 \<equiv> \<lparr>order_id = 1, is_buy = True, price = 100, quantity = 5, timestamp_ns = 0\<rparr>"

abbreviation bid_2 :: Order where
  "bid_2 \<equiv> \<lparr>order_id = 2, is_buy = True, price = 100, quantity = 7, timestamp_ns = 0\<rparr>"

abbreviation ask_3 :: Order where
  "ask_3 \<equiv> \<lparr>order_id = 3, is_buy = False, price = 101, quantity = 7, timestamp_ns = 0\<rparr>"

text \<open>The book with \<open>bid_1\<close> and \<open>bid_2\<close> queued at 100, in this order.\<close>

abbreviation two_bids :: OrderBook where
  "two_bids \<equiv> insert_order (insert_order OrderBook_ctor bid_1) bid_2"

abbreviation ask_4 :: Order where
  "ask_4 \<equiv> \<lparr>order_id = 4, is_buy = False, price = 102, quantity = 2, timestamp_ns = 0\<rparr>"

abbreviation buy_9 :: Order where
  "buy_9 \<equiv> \<lparr>order_id = 9, is_buy = True, price = 102, quantity = 8, timestamp_ns = 0\<rparr>"

abbreviation sell_9 :: Order where
  "sell_9 \<equiv> \<lparr>order_id = 9, is_buy = False, price = 99, quantity = 8, timestamp_ns = 0\<rparr>"

text \<open>The book with \<open>ask_3\<close> resting at 101 and \<open>ask_4\<close> at 102.\<close>

abbreviation two_asks :: OrderBook where
  "two_asks \<equiv> insert_order (insert_order OrderBook_ctor ask_3) ask_4"

section \<open>Lemmas\<close>

subsection \<open>Side indices\<close>

lemma map_modify_keys [simp]: "map fst (map_modify k f m) = map fst m"
  by (induction m) auto

lemma map_of_map_modify:
  "map_of (map_modify k f m) k' = (if k' = k then map_option f (map_of m k) else map_of m k')"
  by (induction m) auto

lemma map_modify_absent: "map_of m k = None \<Longrightarrow> map_modify k f m = m"
  by (induction m) (auto split: if_splits)

lemma map_of_split:
  "map_of m k = Some l \<Longrightarrow>
   \<exists>m1 m2. m = m1 @ (k, l) # m2 \<and> k \<notin> fst ` set m1 \<and>
     (\<forall>f. map_modify k f m = m1 @ (k, f l) # m2) \<and> map_erase k m = m1 @ m2"
proof (induction m)
  case Nil
  then show ?case by simp
next
  case (Cons e m)
  obtain k' l' where e: "e = (k', l')" by (cases e)
  show ?case
  proof (cases "k = k'")
    case True
    with Cons.prems e have "l' = l" by simp
    with True e show ?thesis
      by (intro exI [of _ "[]"] exI [of _ m]) simp
  next
    case False
    with Cons.prems e have "map_of m k = Some l" by simp
    from Cons.IH [OF this] obtain m1 m2 where
      "m = m1 @ (k, l) # m2" "k \<notin> fst ` set m1"
      "\<forall>f. map_modify k f m = m1 @ (k, f l) # m2" "map_erase k m = m1 @ m2"
      by blast
    with False e show ?thesis
      by (intro exI [of _ "(k', l') # m1"] exI [of _ m2]) auto
  qed
qed

lemma map_emplace_split:
  "map_of m k = None \<Longrightarrow>
   \<exists>m1 m2. m = m1 @ m2 \<and> map_emplace cmp k v m = m1 @ (k, v) # m2 \<and>
     (\<forall>k' \<in> fst ` set m1. \<not> cmp k k') \<and> (m2 \<noteq> [] \<longrightarrow> cmp k (fst (hd m2)))"
proof (induction m)
  case Nil
  then show ?case by simp
next
  case (Cons e m)
  obtain k' l' where e: "e = (k', l')" by (cases e)
  with Cons.prems have ne: "k \<noteq> k'" and absent: "map_of m k = None"
    by (auto split: if_splits)
  show ?case
  proof (cases "cmp k k'")
    case True
    with e show ?thesis
      by (intro exI [of _ "[]"] exI [of _ "e # m"]) simp
  next
    case False
    from Cons.IH [OF absent] obtain m1 m2 where
      "m = m1 @ m2" "map_emplace cmp k v m = m1 @ (k, v) # m2"
      "\<forall>k' \<in> fst ` set m1. \<not> cmp k k'" "m2 \<noteq> [] \<longrightarrow> cmp k (fst (hd m2))"
      by blast
    with False ne e show ?thesis
      by (intro exI [of _ "(k', l') # m1"] exI [of _ m2]) auto
  qed
qed

lemma map_emplace_keys:
  "fst ` set (map_emplace cmp k v m) = insert k (fst ` set m)"
proof (induction m)
  case Nil
  show ?case by simp
next
  case (Cons e m)
  then show ?case
    by (cases e) (simp add: insert_commute)
qed

lemma sorted_map_emplace:
  "cmp = (<) \<or> cmp = (>) \<Longrightarrow> sorted_wrt cmp (map fst m) \<Longrightarrow>
   sorted_wrt cmp (map fst (map_emplace cmp k v m))"
proof (induction m)
  case Nil
  then show ?case by simp
next
  case (Cons e m)
  note keys = map_emplace_keys [of cmp k v m]
  from Cons show ?case
    by (cases e) (auto simp: keys)
qed

lemma sorted_map_erase:
  "sorted_wrt cmp (map fst m) \<Longrightarrow> sorted_wrt cmp (map fst (map_erase k m))"
proof (induction m)
  case Nil
  then show ?case by simp
next
  case (Cons e m)
  have "set (map_erase k m) \<subseteq> set m"
    by (induction m) (auto split: if_splits)
  with Cons show ?case
    by (cases e) auto
qed

subsection \<open>The blocks of the loop body, field by field\<close>

lemma deref_set_quantity:
  "deref (set_quantity s p q) h = (if h = p then (deref s p)\<lparr>quantity := q\<rparr> else deref s h)"
  by (simp add: deref_def set_quantity_def)

lemma set_quantity_fields [simp]:
  "bids (set_quantity s p q) = bids s"
  "asks (set_quantity s p q) = asks s"
  "order_lookup (set_quantity s p q) = order_lookup s"
  "allocated (order_pool (set_quantity s p q)) = allocated (order_pool s)"
  "total_orders_added (set_quantity s p q) = total_orders_added s"
  "total_orders_cancelled (set_quantity s p q) = total_orders_cancelled s"
  "total_orders_matched (set_quantity s p q) = total_orders_matched s"
  "trade_log (set_quantity s p q) = trade_log s"
  by (simp_all add: set_quantity_def)

lemma execute_trade_fields [simp]:
  "bids (execute_trade s b a q) = bids s"
  "asks (execute_trade s b a q) = asks s"
  "order_lookup (execute_trade s b a q) = order_lookup s"
  "order_pool (execute_trade s b a q) = order_pool s"
  "deref (execute_trade s b a q) = deref s"
  "total_orders_added (execute_trade s b a q) = total_orders_added s"
  "total_orders_cancelled (execute_trade s b a q) = total_orders_cancelled s"
  "total_orders_matched (execute_trade s b a q) = total_orders_matched s + 1"
  by (simp_all add: execute_trade_def deref_def fun_eq_iff)

lemma update_quantities_fields [simp]:
  "bids (update_quantities s b a q) = sub_head_total q (bids s)"
  "asks (update_quantities s b a q) = sub_head_total q (asks s)"
  "order_lookup (update_quantities s b a q) = order_lookup s"
  "allocated (order_pool (update_quantities s b a q)) = allocated (order_pool s)"
  "total_orders_added (update_quantities s b a q) = total_orders_added s"
  "total_orders_cancelled (update_quantities s b a q) = total_orders_cancelled s"
  "total_orders_matched (update_quantities s b a q) = total_orders_matched s"
  "trade_log (update_quantities s b a q) = trade_log s"
  by (simp_all add: update_quantities_def Let_def)

lemma deref_update_quantities:
  "a \<noteq> b \<Longrightarrow> deref (update_quantities s b a q) h =
     (if h = b then (deref s b)\<lparr>quantity := quantity (deref s b) - q\<rparr>
      else if h = a then (deref s a)\<lparr>quantity := quantity (deref s a) - q\<rparr>
      else deref s h)"
  by (simp add: update_quantities_def Let_def deref_def set_quantity_def)

lemma remove_filled_buy_fields [simp]:
  "asks (remove_filled_buy s b) = asks s"
  "order_pool (remove_filled_buy s b) = order_pool s"
  "deref (remove_filled_buy s b) = deref s"
  "total_orders_added (remove_filled_buy s b) = total_orders_added s"
  "total_orders_cancelled (remove_filled_buy s b) = total_orders_cancelled s"
  "total_orders_matched (remove_filled_buy s b) = total_orders_matched s"
  "trade_log (remove_filled_buy s b) = trade_log s"
  by (simp_all add: remove_filled_buy_def deallocate_def deref_def fun_eq_iff)

lemma remove_filled_sell_fields [simp]:
  "bids (remove_filled_sell s a) = bids s"
  "order_pool (remove_filled_sell s a) = order_pool s"
  "deref (remove_filled_sell s a) = deref s"
  "total_orders_added (remove_filled_sell s a) = total_orders_added s"
  "total_orders_cancelled (remove_filled_sell s a) = total_orders_cancelled s"
  "total_orders_matched (remove_filled_sell s a) = total_orders_matched s"
  "trade_log (remove_filled_sell s a) = trade_log s"
  by (simp_all add: remove_filled_sell_def deallocate_def deref_def fun_eq_iff)

lemma bids_remove_filled_buy:
  "bids (remove_filled_buy s b) = (if quantity (deref s b) = 0 then pop_filled (bids s) else bids s)"
  by (simp add: remove_filled_buy_def)

lemma asks_remove_filled_sell:
  "asks (remove_filled_sell s a) = (if quantity (deref s a) = 0 then pop_filled (asks s) else asks s)"
  by (simp add: remove_filled_sell_def)

lemma lookup_remove_filled_buy:
  "order_lookup (remove_filled_buy s b) =
     (if quantity (deref s b) = 0 then (order_lookup s)(order_id (deref s b) := None)
      else order_lookup s)"
  by (simp add: remove_filled_buy_def)

lemma lookup_remove_filled_sell:
  "order_lookup (remove_filled_sell s a) =
     (if quantity (deref s a) = 0 then (order_lookup s)(order_id (deref s a) := None)
      else order_lookup s)"
  by (simp add: remove_filled_sell_def)

lemma match_step_alt:
  "match_step s =
     remove_filled_sell
       (remove_filled_buy
          (update_quantities (execute_trade s (buy_head s) (sell_head s) (fill_qty s))
             (buy_head s) (sell_head s) (fill_qty s))
          (buy_head s))
       (sell_head s)"
  by (simp add: match_step_def Let_def buy_head_def sell_head_def fill_qty_def)

lemma match_step_deref:
  "sell_head s \<noteq> buy_head s \<Longrightarrow> deref (match_step s) h =
     (if h = buy_head s
      then (deref s h)\<lparr>quantity := quantity (deref s h) - fill_qty s\<rparr>
      else if h = sell_head s
      then (deref s h)\<lparr>quantity := quantity (deref s h) - fill_qty s\<rparr>
      else deref s h)"
  by (simp add: match_step_alt deref_update_quantities)

lemma match_step_bids:
  "sell_head s \<noteq> buy_head s \<Longrightarrow> bids (match_step s) =
     (if quantity (deref s (buy_head s)) - fill_qty s = 0
      then pop_filled (sub_head_total (fill_qty s) (bids s))
      else sub_head_total (fill_qty s) (bids s))"
  by (simp add: match_step_alt bids_remove_filled_buy deref_update_quantities)

lemma match_step_asks:
  "sell_head s \<noteq> buy_head s \<Longrightarrow> asks (match_step s) =
     (if quantity (deref s (sell_head s)) - fill_qty s = 0
      then pop_filled (sub_head_total (fill_qty s) (asks s))
      else sub_head_total (fill_qty s) (asks s))"
  by (simp add: match_step_alt asks_remove_filled_sell deref_update_quantities)

lemma match_step_lookup:
  "sell_head s \<noteq> buy_head s \<Longrightarrow> order_lookup (match_step s) i =
     (if (quantity (deref s (buy_head s)) - fill_qty s = 0 \<and> i = order_id (deref s (buy_head s)))
         \<or> (quantity (deref s (sell_head s)) - fill_qty s = 0 \<and> i = order_id (deref s (sell_head s)))
      then None else order_lookup s i)"
  by (simp add: match_step_alt lookup_remove_filled_sell lookup_remove_filled_buy
      deref_update_quantities)

lemma match_step_fields [simp]:
  "allocated (order_pool (match_step s)) = allocated (order_pool s)"
  "total_orders_added (match_step s) = total_orders_added s"
  "total_orders_cancelled (match_step s) = total_orders_cancelled s"
  "total_orders_matched (match_step s) = total_orders_matched s + 1"
  by (simp_all add: match_step_alt)

lemma match_step_trade_log:
  "trade_log (match_step s) = trade_log s @
     [\<lparr>buy_order_id = order_id (deref s (buy_head s)),
       sell_order_id = order_id (deref s (sell_head s)),
       trade_qty = fill_qty s,
       trade_price = price (deref s (sell_head s))\<rparr>]"
  by (simp add: match_step_alt) (simp add: execute_trade_def)

subsection \<open>One pass of the loop keeps the book well formed\<close>

lemma handles_Nil [simp]: "handles [] = []"
  by (simp add: handles_def)

lemma handles_Cons [simp]: "handles (e # m) = orders (snd e) @ handles m"
  by (simp add: handles_def)

lemma handles_append [simp]: "handles (m1 @ m2) = handles m1 @ handles m2"
  by (simp add: handles_def)

lemma levels_ok_Nil [simp]: "levels_ok s []"
  by (simp add: levels_ok_def)

lemma levels_ok_Cons [simp]: "levels_ok s (e # m) \<longleftrightarrow> level_ok s (snd e) \<and> levels_ok s m"
  by (simp add: levels_ok_def)

lemma levels_ok_append [simp]: "levels_ok s (m1 @ m2) \<longleftrightarrow> levels_ok s m1 \<and> levels_ok s m2"
  by (auto simp: levels_ok_def)

lemma sum_quantity_cong:
  "(\<And>p. p \<in> set xs \<Longrightarrow> quantity (deref s' p) = quantity (deref s p)) \<Longrightarrow>
   (\<Sum>p\<leftarrow>xs. quantity (deref s' p)) = (\<Sum>p\<leftarrow>xs. quantity (deref s p))"
  by (induction xs) auto

lemma level_ok_cong:
  assumes "\<And>p. p \<in> set (orders l) \<Longrightarrow> quantity (deref s' p) = quantity (deref s p)"
  shows "level_ok s' l = level_ok s l"
proof -
  have "(\<Sum>p\<leftarrow>orders l. quantity (deref s' p)) = (\<Sum>p\<leftarrow>orders l. quantity (deref s p))"
    by (rule sum_quantity_cong) (rule assms)
  then show ?thesis by (simp add: level_ok_def)
qed

lemma levels_ok_cong:
  "(\<And>p. p \<in> set (handles m) \<Longrightarrow> quantity (deref s' p) = quantity (deref s p)) \<Longrightarrow>
   levels_ok s' m = levels_ok s m"
proof (induction m)
  case Nil
  show ?case by simp
next
  case (Cons e m)
  have "level_ok s' (snd e) = level_ok s (snd e)"
    by (rule level_ok_cong) (simp add: Cons.prems)
  moreover have "levels_ok s' m = levels_ok s m"
    by (rule Cons.IH) (simp add: Cons.prems)
  ultimately show ?case by simp
qed

lemma after_fill_Cons:
  "orders l = x # xt \<Longrightarrow> after_fill filled q ((k, l) # rest) =
     (if filled \<and> xt = [] then rest
      else (k, l\<lparr>orders := (if filled then xt else x # xt),
                  total_quantity := total_quantity l - q\<rparr>) # rest)"
  by (simp add: after_fill_def pop_filled_def sub_head_total_def Let_def)

lemma side_headE:
  assumes "m \<noteq> []" "orders (snd (hd m)) \<noteq> []"
  obtains k l rest x xt where "m = (k, l) # rest" "orders l = x # xt"
proof -
  from assms(1) obtain e rest where m: "m = e # rest" by (cases m) auto
  obtain k l where e: "e = (k, l)" by (cases e)
  from assms(2) m e obtain x xt where "orders l = x # xt" by (cases "orders l") auto
  with m e that show thesis by blast
qed

lemma sorted_after_fill:
  assumes "sorted_wrt cmp (map fst m)" "m \<noteq> []" "orders (snd (hd m)) \<noteq> []"
  shows "sorted_wrt cmp (map fst (after_fill filled q m))"
proof -
  from assms(2,3) obtain k l rest x xt where m: "m = (k, l) # rest" and l: "orders l = x # xt"
    by (rule side_headE)
  from assms(1) show ?thesis
    by (simp add: m after_fill_Cons [OF l])
qed

lemma handles_after_fill:
  assumes "m \<noteq> []" "orders (snd (hd m)) \<noteq> []"
  shows "handles (after_fill filled q m) = (if filled then tl (handles m) else handles m)"
proof -
  from assms obtain k l rest x xt where m: "m = (k, l) # rest" and l: "orders l = x # xt"
    by (rule side_headE)
  show ?thesis
    by (simp add: m l after_fill_Cons [OF l])
qed

lemma queued_Nil [simp]: "queued [] = 0"
  by (simp add: queued_def)

lemma queued_Cons [simp]: "queued (e # m) = length (orders (snd e)) + queued m"
  by (simp add: queued_def)

lemma queued_after_fill:
  assumes "m \<noteq> []" "orders (snd (hd m)) \<noteq> []"
  shows "queued (after_fill filled q m) = (if filled then queued m - 1 else queued m)"
proof -
  from assms obtain k l rest x xt where m: "m = (k, l) # rest" and l: "orders l = x # xt"
    by (rule side_headE)
  show ?thesis
    by (simp add: m l after_fill_Cons [OF l])
qed

lemma queued_pos:
  assumes "m \<noteq> []" "orders (snd (hd m)) \<noteq> []"
  shows "0 < queued m"
proof -
  from assms obtain k l rest x xt where m: "m = (k, l) # rest" and l: "orders l = x # xt"
    by (rule side_headE)
  show ?thesis
    by (simp add: m l)
qed

lemma levels_ok_after_fill:
  assumes ok: "levels_ok s m"
    and m: "m = (k, l) # rest" and l: "orders l = x # xt"
    and dist: "distinct (handles m)"
    and frame: "\<And>p. p \<in> set (handles m) \<Longrightarrow> p \<noteq> x \<Longrightarrow> quantity (deref s' p) = quantity (deref s p)"
    and x: "quantity (deref s' x) = quantity (deref s x) - q"
    and filled: "filled \<longleftrightarrow> quantity (deref s x) - q = 0"
  shows "levels_ok s' (after_fill filled q m)"
proof -
  from dist m l have nx: "x \<notin> set xt" "x \<notin> set (handles rest)" by auto
  have rest: "levels_ok s' rest"
  proof -
    have "levels_ok s' rest = levels_ok s rest"
      by (rule levels_ok_cong) (use nx m frame in auto)
    with ok m show ?thesis by simp
  qed
  have xt: "(\<Sum>p\<leftarrow>xt. quantity (deref s' p)) = (\<Sum>p\<leftarrow>xt. quantity (deref s p))"
    by (rule sum_quantity_cong) (use nx m l frame in auto)
  from ok m l have tot: "total_quantity l = quantity (deref s x) + sum_list (map (\<lambda>p. quantity (deref s p)) xt)"
    by (simp add: level_ok_def)
  show ?thesis
  proof (cases filled)
    case True
    with filled have "quantity (deref s x) = q" by simp
    with tot True rest xt show ?thesis
      by (simp add: m after_fill_Cons [OF l] level_ok_def)
  next
    case False
    with tot rest xt x show ?thesis
      by (simp add: m after_fill_Cons [OF l] level_ok_def)
  qed
qed

lemma map_of_after_fill:
  assumes "map_of m k' = Some l'" "h \<in> set (orders l')"
    and m: "m = (k, l) # rest" and l: "orders l = x # xt"
    and hx: "filled \<longrightarrow> h \<noteq> x"
  shows "\<exists>l''. map_of (after_fill filled q m) k' = Some l'' \<and> h \<in> set (orders l'')"
proof (cases "k' = k")
  case True
  with assms(1) m have "l' = l" by simp
  with assms(2) l hx have "h \<in> set (if filled then xt else x # xt)" by auto
  then have "\<not> (filled \<and> xt = [])" by auto
  with True \<open>h \<in> set (if filled then xt else x # xt)\<close> show ?thesis
    by (auto simp: m after_fill_Cons [OF l])
next
  case False
  with assms(1) m have "map_of rest k' = Some l'" by simp
  with False assms(2) show ?thesis
    by (simp add: m after_fill_Cons [OF l])
qed

lemma min_sub_zero: "(a::u64) - min a b = 0 \<or> b - min a b = 0"
  by (simp add: min_def)

lemma crossing_heads:
  assumes "crossing s"
  obtains bk bl brest b btl ak al arest a atl where
    "bids s = (bk, bl) # brest" "orders bl = b # btl" "asks s = (ak, al) # arest" "orders al = a # atl"
    "buy_head s = b" "sell_head s = a"
proof -
  from assms have ne: "bids s \<noteq> []" "orders (snd (hd (bids s))) \<noteq> []"
    "asks s \<noteq> []" "orders (snd (hd (asks s))) \<noteq> []"
    by (simp_all add: crossing_def)
  from ne(1,2) obtain bk bl brest b btl where b: "bids s = (bk, bl) # brest" "orders bl = b # btl"
    by (rule side_headE)
  from ne(3,4) obtain ak al arest a atl where a: "asks s = (ak, al) # arest" "orders al = a # atl"
    by (rule side_headE)
  from a b have "buy_head s = b" "sell_head s = a"
    by (simp_all add: buy_head_def sell_head_def)
  with a b that show thesis by blast
qed

lemma distinct_tl_append:
  "distinct (xs @ ys) \<Longrightarrow> distinct ((if f then tl xs else xs) @ (if g then tl ys else ys))"
  by (cases xs; cases ys) auto

lemma set_tl_if: "set (if f then tl xs else xs) \<subseteq> set xs"
  by (cases xs) auto

lemma one_side_filled: "buy_filled s \<or> sell_filled s"
  using min_sub_zero [of "quantity (deref s (buy_head s))" "quantity (deref s (sell_head s))"]
  by (simp add: buy_filled_def sell_filled_def fill_qty_def)

lemma match_step_sides:
  assumes "sell_head s \<noteq> buy_head s"
  shows "bids (match_step s) = after_fill (buy_filled s) (fill_qty s) (bids s)"
    and "asks (match_step s) = after_fill (sell_filled s) (fill_qty s) (asks s)"
  using assms by (simp_all add: match_step_bids match_step_asks after_fill_def
      buy_filled_def sell_filled_def)

lemma heads_differ:
  assumes "book_ok s" "crossing s"
  shows "sell_head s \<noteq> buy_head s"
proof -
  from assms(2) obtain bk bl brest b btl ak al arest a atl where
    h: "bids s = (bk, bl) # brest" "orders bl = b # btl"
       "asks s = (ak, al) # arest" "orders al = a # atl"
       "buy_head s = b" "sell_head s = a"
    by (rule crossing_heads)
  from assms(1) have "distinct (handles (bids s) @ handles (asks s))"
    by (simp add: book_ok_def)
  with h show ?thesis by auto
qed

lemma match_step_decreases:
  assumes "book_ok s" "crossing s"
  shows "live_orders (match_step s) < live_orders s"
proof -
  note ne = heads_differ [OF assms]
  from assms(2) have nb: "bids s \<noteq> []" "orders (snd (hd (bids s))) \<noteq> []"
    and na: "asks s \<noteq> []" "orders (snd (hd (asks s))) \<noteq> []"
    by (simp_all add: crossing_def)
  from queued_pos [OF nb] queued_pos [OF na] one_side_filled [of s]
  show ?thesis
    by (auto simp: live_orders_def match_step_sides [OF ne]
        queued_after_fill [OF nb] queued_after_fill [OF na])
qed

lemma match_step_book_ok:
  assumes ok: "book_ok s" and cr: "crossing s"
  shows "book_ok (match_step s)"
proof -
  note ne = heads_differ [OF assms]
  from cr obtain bk bl brest b btl ak al arest a atl where
    h: "bids s = (bk, bl) # brest" "orders bl = b # btl"
       "asks s = (ak, al) # arest" "orders al = a # atl"
    and hd: "buy_head s = b" "sell_head s = a"
    by (rule crossing_heads)
  from cr have nb: "bids s \<noteq> []" "orders (snd (hd (bids s))) \<noteq> []"
    and na: "asks s \<noteq> []" "orders (snd (hd (asks s))) \<noteq> []"
    by (simp_all add: crossing_def)
  let ?s' = "match_step s"
  let ?q = "fill_qty s"
  note sides = match_step_sides [OF ne]
  from ok have sorted: "sorted_wrt (>) (map fst (bids s))" "sorted_wrt (<) (map fst (asks s))"
    and dist: "distinct (handles (bids s) @ handles (asks s))"
    and bound: "\<forall>p \<in> set (handles (bids s) @ handles (asks s)). p < allocated (order_pool s)"
    and lv: "levels_ok s (bids s)" "levels_ok s (asks s)"
    and loc: "locator_ok s"
    by (simp_all add: book_ok_def)
  have deref': "\<And>p. deref ?s' p =
      (if p = b \<or> p = a then (deref s p)\<lparr>quantity := quantity (deref s p) - ?q\<rparr> else deref s p)"
    using ne by (simp add: match_step_deref hd)
  have 1: "sorted_wrt (>) (map fst (bids ?s'))" "sorted_wrt (<) (map fst (asks ?s'))"
    by (simp_all add: sides sorted_after_fill [OF sorted(1) nb] sorted_after_fill [OF sorted(2) na])
  have hs: "handles (bids ?s') = (if buy_filled s then tl (handles (bids s)) else handles (bids s))"
    "handles (asks ?s') = (if sell_filled s then tl (handles (asks s)) else handles (asks s))"
    by (simp_all add: sides handles_after_fill [OF nb] handles_after_fill [OF na])
  have 2: "distinct (handles (bids ?s') @ handles (asks ?s'))"
    unfolding hs by (rule distinct_tl_append [OF dist])
  have sub: "set (handles (bids ?s')) \<subseteq> set (handles (bids s))"
    "set (handles (asks ?s')) \<subseteq> set (handles (asks s))"
    unfolding hs by (rule set_tl_if)+
  have 3: "\<forall>p \<in> set (handles (bids ?s') @ handles (asks ?s')). p < allocated (order_pool ?s')"
    using bound sub by auto
  have 4: "levels_ok ?s' (bids ?s')"
    unfolding sides
  proof (rule levels_ok_after_fill [OF lv(1) h(1) h(2)])
    show "distinct (handles (bids s))" using dist by simp
    show "quantity (deref ?s' p) = quantity (deref s p)"
      if "p \<in> set (handles (bids s))" "p \<noteq> b" for p
    proof -
      from that(1) dist h have "p \<noteq> a" by auto
      with that(2) show ?thesis by (simp add: deref')
    qed
    show "quantity (deref ?s' b) = quantity (deref s b) - ?q" by (simp add: deref')
    show "buy_filled s \<longleftrightarrow> quantity (deref s b) - ?q = 0" by (simp add: buy_filled_def hd)
  qed
  have 5: "levels_ok ?s' (asks ?s')"
    unfolding sides
  proof (rule levels_ok_after_fill [OF lv(2) h(3) h(4)])
    show "distinct (handles (asks s))" using dist by simp
    show "quantity (deref ?s' p) = quantity (deref s p)"
      if "p \<in> set (handles (asks s))" "p \<noteq> a" for p
    proof -
      from that(1) dist h have "p \<noteq> b" by auto
      with that(2) show ?thesis by (simp add: deref')
    qed
    show "quantity (deref ?s' a) = quantity (deref s a) - ?q" by (simp add: deref')
    show "sell_filled s \<longleftrightarrow> quantity (deref s a) - ?q = 0" by (simp add: sell_filled_def hd)
  qed
  have 6: "locator_ok ?s'"
    unfolding locator_ok_def
  proof (intro allI impI)
    fix i e
    assume e': "order_lookup ?s' i = Some e"
    have lk: "order_lookup ?s' i =
        (if (buy_filled s \<and> i = order_id (deref s b)) \<or> (sell_filled s \<and> i = order_id (deref s a))
         then None else order_lookup s i)"
      using ne by (simp add: match_step_lookup buy_filled_def sell_filled_def hd)
    from e' lk have e: "order_lookup s i = Some e"
      and kept: "\<not> (buy_filled s \<and> i = order_id (deref s b))"
                "\<not> (sell_filled s \<and> i = order_id (deref s a))"
      by (auto split: if_splits)
    from loc e have it: "list_iter e = loc_order e"
      and oid: "order_id (deref s (loc_order e)) = i"
      and lvl: "\<exists>l. map_of (if is_bid e then bids s else asks s) (loc_price e) = Some l \<and>
               loc_order e \<in> set (orders l)"
      unfolding locator_ok_def by blast+
    from lvl obtain l where l: "map_of (if is_bid e then bids s else asks s) (loc_price e) = Some l"
      "loc_order e \<in> set (orders l)" by blast
    have "\<exists>l. map_of (if is_bid e then bids ?s' else asks ?s') (loc_price e) = Some l \<and>
        loc_order e \<in> set (orders l)"
    proof (cases "is_bid e")
      case True
      have "buy_filled s \<longrightarrow> loc_order e \<noteq> b" using kept(1) oid by auto
      with map_of_after_fill [OF _ l(2) h(1) h(2), of "loc_price e" "buy_filled s" ?q] l(1) True
      show ?thesis by (simp add: sides)
    next
      case False
      have "sell_filled s \<longrightarrow> loc_order e \<noteq> a" using kept(2) oid by auto
      with map_of_after_fill [OF _ l(2) h(3) h(4), of "loc_price e" "sell_filled s" ?q] l(1) False
      show ?thesis by (simp add: sides)
    qed
    moreover have "order_id (deref ?s' (loc_order e)) = i"
      using oid by (simp add: deref')
    ultimately show "list_iter e = loc_order e \<and> order_id (deref ?s' (loc_order e)) = i \<and>
        (\<exists>l. map_of (if is_bid e then bids ?s' else asks ?s') (loc_price e) = Some l \<and>
             loc_order e \<in> set (orders l))"
      using it by blast
  qed
  from 1 2 3 4 5 6 show ?thesis
    unfolding book_ok_def by blast
qed

subsection \<open>The loop\<close>

lemma match_orders_rule:
  assumes "book_ok s"
    and base: "\<And>s. book_ok s \<Longrightarrow> \<not> crossing s \<Longrightarrow> P s s"
    and step: "\<And>s s'. book_ok s \<Longrightarrow> crossing s \<Longrightarrow> book_ok (match_step s) \<Longrightarrow>
                 match_orders (match_step s) = Some s' \<Longrightarrow> P (match_step s) s' \<Longrightarrow> P s s'"
  shows "\<exists>s'. match_orders s = Some s' \<and> P s s'"
  using assms(1)
proof (induction "live_orders s" arbitrary: s rule: less_induct)
  case less
  show ?case
  proof (cases "crossing s")
    case False
    with less.prems base show ?thesis
      by (subst match_orders.simps) simp
  next
    case True
    note ok' = match_step_book_ok [OF less.prems True]
    from less.hyps [OF match_step_decreases [OF less.prems True] ok']
    obtain s' where s': "match_orders (match_step s) = Some s'" "P (match_step s) s'"
      by blast
    from step [OF less.prems True ok' s'] s'(1) True show ?thesis
      by (subst match_orders.simps) simp
  qed
qed

lemma match_orders_book_ok:
  assumes "book_ok s"
  shows "\<exists>s'. match_orders s = Some s' \<and> book_ok s' \<and> \<not> crossing s'"
  by (rule match_orders_rule [OF assms]) simp_all

lemma match_orders_idle: "\<not> crossing s \<Longrightarrow> match_orders s = Some s"
  by (subst match_orders.simps) simp

lemma not_crossing_uncrossed:
  assumes "book_ok s" "\<not> crossing s"
  shows "uncrossed s"
proof -
  have "orders (snd (hd m)) \<noteq> []" if "levels_ok s m" "m \<noteq> []" for m
    using that by (cases m) (auto simp: level_ok_def)
  with assms show ?thesis
    by (auto simp: uncrossed_def crossing_def book_ok_def)
qed

lemma uncrossed_not_crossing: "uncrossed s \<Longrightarrow> \<not> crossing s"
  by (auto simp: uncrossed_def crossing_def)

subsection \<open>\<open>add_order\<close> before matching\<close>

lemma map_modify_append:
  "k \<notin> fst ` set m1 \<Longrightarrow> map_modify k f (m1 @ (k, l) # m2) = m1 @ (k, f l) # m2"
  by (induction m1) auto

lemma map_erase_append:
  "k \<notin> fst ` set m1 \<Longrightarrow> map_erase k (m1 @ (k, l) # m2) = m1 @ m2"
  by (induction m1) auto

lemma map_of_append_absent:
  "k \<notin> fst ` set m1 \<Longrightarrow> map_of (m1 @ m2) k = map_of m2 k"
  by (induction m1) auto

lemma map_of_map_emplace:
  "map_of m k = None \<Longrightarrow>
   map_of (map_emplace cmp k v m) k' = (if k' = k then Some v else map_of m k')"
  by (induction m) (auto split: if_splits)

lemma enqueue_alt:
  "enqueue cmp ord h m =
     map_modify (price ord) (push_order h (quantity ord))
       (case map_of m (price ord) of
          None \<Rightarrow> map_emplace cmp (price ord) (PriceLevelData_ctor (price ord)) m
        | Some _ \<Rightarrow> m)"
proof -
  have "push_order h (quantity ord) =
      (\<lambda>l. l\<lparr>orders := orders l @ [h], total_quantity := total_quantity l + quantity ord\<rparr>)"
    by (simp add: fun_eq_iff push_order_def)
  then show ?thesis
    by (simp add: enqueue_def Let_def)
qed

lemma enqueue_keys:
  "map fst (enqueue cmp ord h m) =
     map fst (case map_of m (price ord) of
                None \<Rightarrow> map_emplace cmp (price ord) (PriceLevelData_ctor (price ord)) m
              | Some _ \<Rightarrow> m)"
  by (simp add: enqueue_alt)

lemma sorted_enqueue:
  "cmp = (<) \<or> cmp = (>) \<Longrightarrow> sorted_wrt cmp (map fst m) \<Longrightarrow>
   sorted_wrt cmp (map fst (enqueue cmp ord h m))"
  by (simp add: enqueue_keys sorted_map_emplace split: option.split)

lemma map_of_enqueue:
  "map_of (enqueue cmp ord h m) k' =
     (if k' = price ord
      then Some (push_order h (quantity ord)
                  (case map_of m (price ord) of None \<Rightarrow> PriceLevelData_ctor (price ord) | Some l \<Rightarrow> l))
      else map_of m k')"
  by (simp add: enqueue_alt map_of_map_modify map_of_map_emplace split: option.split)

lemma enqueue_split:
  "\<exists>m1 l m2. enqueue cmp ord h m = m1 @ (price ord, push_order h (quantity ord) l) # m2 \<and>
     price ord \<notin> fst ` set m1 \<and>
     (m = m1 @ (price ord, l) # m2 \<or>
      m = m1 @ m2 \<and> l = PriceLevelData_ctor (price ord) \<and> map_of m (price ord) = None)"
proof (cases "map_of m (price ord)")
  case None
  from map_emplace_split [OF None, of cmp "PriceLevelData_ctor (price ord)"]
  obtain m1 m2 where m: "m = m1 @ m2"
    and e: "map_emplace cmp (price ord) (PriceLevelData_ctor (price ord)) m =
            m1 @ (price ord, PriceLevelData_ctor (price ord)) # m2"
    by blast
  from None m have m1: "price ord \<notin> fst ` set m1"
    by (auto simp: map_of_eq_None_iff)
  have "enqueue cmp ord h m =
      m1 @ (price ord, push_order h (quantity ord) (PriceLevelData_ctor (price ord))) # m2"
    by (simp add: enqueue_alt None e map_modify_append [OF m1])
  with m m1 None show ?thesis by blast
next
  case (Some l)
  from map_of_split [OF Some] obtain m1 m2 where
    m: "m = m1 @ (price ord, l) # m2" "price ord \<notin> fst ` set m1"
    and f: "\<forall>f. map_modify (price ord) f m = m1 @ (price ord, f l) # m2"
    by blast
  have "enqueue cmp ord h m = map_modify (price ord) (push_order h (quantity ord)) m"
    by (simp add: enqueue_alt Some)
  with f have "enqueue cmp ord h m = m1 @ (price ord, push_order h (quantity ord) l) # m2"
    by simp
  with m show ?thesis by blast
qed

lemma insert_order_fields:
  "bids (insert_order s ord) =
     (if is_buy ord then enqueue (>) ord (new_handle s) (bids s) else bids s)"
  "asks (insert_order s ord) =
     (if is_buy ord then asks s else enqueue (<) ord (new_handle s) (asks s))"
  "order_lookup (insert_order s ord) = (order_lookup s)(order_id ord \<mapsto> new_location s ord)"
  "allocated (order_pool (insert_order s ord)) = Suc (new_handle s)"
  "deref (insert_order s ord) = (deref s)(new_handle s := ord)"
  by (simp_all add: insert_order_def allocate_def Let_def new_handle_def new_location_def
      deref_def fun_eq_iff)

lemma insert_order_counters [simp]:
  "total_orders_added (insert_order s ord) = total_orders_added s + 1"
  "total_orders_cancelled (insert_order s ord) = total_orders_cancelled s"
  "total_orders_matched (insert_order s ord) = total_orders_matched s"
  "trade_log (insert_order s ord) = trade_log s"
  by (simp_all add: insert_order_def allocate_def Let_def)

lemma handles_enqueue:
  "\<exists>xs ys. handles m = xs @ ys \<and> handles (enqueue cmp ord h m) = xs @ h # ys"
proof -
  from enqueue_split [of cmp ord h m] obtain m1 l m2 where
    e: "enqueue cmp ord h m = m1 @ (price ord, push_order h (quantity ord) l) # m2"
    and m: "m = m1 @ (price ord, l) # m2 \<or> m = m1 @ m2 \<and> l = PriceLevelData_ctor (price ord)"
    by blast
  from m have "handles m = (handles m1 @ orders l) @ handles m2"
    by (auto simp: PriceLevelData_ctor_def)
  moreover from e have "handles (enqueue cmp ord h m) = (handles m1 @ orders l) @ h # handles m2"
    by (simp add: push_order_def)
  ultimately show ?thesis by blast
qed

lemma levels_ok_enqueue:
  assumes ok: "levels_ok s m" and fresh: "h \<notin> set (handles m)"
    and d: "deref s' = (deref s)(h := ord)"
  shows "levels_ok s' (enqueue cmp ord h m)"
proof -
  from enqueue_split [of cmp ord h m] obtain m1 l m2 where
    e: "enqueue cmp ord h m = m1 @ (price ord, push_order h (quantity ord) l) # m2"
    and m: "m = m1 @ (price ord, l) # m2 \<or> m = m1 @ m2 \<and> l = PriceLevelData_ctor (price ord)"
    by blast
  have same: "quantity (deref s' p) = quantity (deref s p)" if "p \<in> set (handles m)" for p
    using that fresh d by auto
  have "levels_ok s' m = levels_ok s m"
    by (rule levels_ok_cong) (rule same)
  with ok have ok': "levels_ok s' m" by simp
  from m ok have tot: "total_quantity l = (\<Sum>p\<leftarrow>orders l. quantity (deref s p))"
    by (auto simp: level_ok_def PriceLevelData_ctor_def)
  from m have sub: "set (orders l) \<subseteq> set (handles m)"
    by (auto simp: PriceLevelData_ctor_def)
  have "(\<Sum>p\<leftarrow>orders l. quantity (deref s' p)) = (\<Sum>p\<leftarrow>orders l. quantity (deref s p))"
    by (rule sum_quantity_cong) (use sub same in auto)
  with tot d have "level_ok s' (push_order h (quantity ord) l)"
    by (simp add: level_ok_def push_order_def)
  moreover from m ok' have "levels_ok s' m1" "levels_ok s' m2" by auto
  ultimately show ?thesis by (simp add: e)
qed

lemma map_of_handles: "map_of m k = Some l \<Longrightarrow> set (orders l) \<subseteq> set (handles m)"
  by (induction m) (auto split: if_splits)

lemma insert_order_book_ok:
  assumes ok: "book_ok s"
  shows "book_ok (insert_order s ord)"
proof -
  let ?s' = "insert_order s ord"
  let ?h = "new_handle s"
  note f = insert_order_fields [of s ord]
  from ok have sorted: "sorted_wrt (>) (map fst (bids s))" "sorted_wrt (<) (map fst (asks s))"
    and dist: "distinct (handles (bids s) @ handles (asks s))"
    and bound: "\<forall>p \<in> set (handles (bids s) @ handles (asks s)). p < allocated (order_pool s)"
    and lv: "levels_ok s (bids s)" "levels_ok s (asks s)"
    and loc: "locator_ok s"
    by (simp_all add: book_ok_def)
  from bound have fresh: "?h \<notin> set (handles (bids s))" "?h \<notin> set (handles (asks s))"
    by (auto simp: new_handle_def)
  have 1: "sorted_wrt (>) (map fst (bids ?s'))" "sorted_wrt (<) (map fst (asks ?s'))"
    using sorted by (simp_all add: f sorted_enqueue)
  obtain xs ys where hb: "handles (bids s) = xs @ ys"
    "handles (enqueue (>) ord ?h (bids s)) = xs @ ?h # ys"
    using handles_enqueue by blast
  obtain xs' ys' where ha: "handles (asks s) = xs' @ ys'"
    "handles (enqueue (<) ord ?h (asks s)) = xs' @ ?h # ys'"
    using handles_enqueue by blast
  have 2: "distinct (handles (bids ?s') @ handles (asks ?s'))"
    using dist fresh by (cases "is_buy ord") (auto simp: f hb ha)
  have 3: "\<forall>p \<in> set (handles (bids ?s') @ handles (asks ?s')). p < allocated (order_pool ?s')"
  proof -
    from bound have "\<forall>p \<in> set (handles (bids s) @ handles (asks s)). p < ?h"
      by (simp add: new_handle_def)
    then show ?thesis
      by (cases "is_buy ord") (auto simp: f hb ha less_Suc_eq)
  qed
  have keep: "levels_ok ?s' m" if "levels_ok s m" "?h \<notin> set (handles m)" for m
  proof -
    have "levels_ok ?s' m = levels_ok s m"
      by (rule levels_ok_cong) (use that(2) in \<open>auto simp: f\<close>)
    with that(1) show ?thesis by simp
  qed
  have 4: "levels_ok ?s' (bids ?s')"
    using levels_ok_enqueue [OF lv(1) fresh(1) f(5)] keep [OF lv(1) fresh(1)]
    by (simp add: f(1))
  have 5: "levels_ok ?s' (asks ?s')"
    using levels_ok_enqueue [OF lv(2) fresh(2) f(5)] keep [OF lv(2) fresh(2)]
    by (simp add: f(2))
  have 6: "locator_ok ?s'"
    unfolding locator_ok_def
  proof (intro allI impI)
    fix i e
    assume e': "order_lookup ?s' i = Some e"
    show "list_iter e = loc_order e \<and> order_id (deref ?s' (loc_order e)) = i \<and>
        (\<exists>l. map_of (if is_bid e then bids ?s' else asks ?s') (loc_price e) = Some l \<and>
             loc_order e \<in> set (orders l))"
    proof (cases "i = order_id ord")
      case True
      with e' have e: "e = new_location s ord" by (simp add: f)
      show ?thesis
        by (simp add: e True new_location_def f map_of_enqueue push_order_def)
    next
      case False
      with e' have e: "order_lookup s i = Some e" by (simp add: f)
      from loc e have it: "list_iter e = loc_order e"
        and oid: "order_id (deref s (loc_order e)) = i"
        and lvl: "\<exists>l. map_of (if is_bid e then bids s else asks s) (loc_price e) = Some l \<and>
                 loc_order e \<in> set (orders l)"
        unfolding locator_ok_def by blast+
      from lvl obtain l where l: "map_of (if is_bid e then bids s else asks s) (loc_price e) = Some l"
        "loc_order e \<in> set (orders l)" by blast
      from map_of_handles [OF l(1)] l(2) fresh have nh: "loc_order e \<noteq> ?h"
        by (auto split: if_splits)
      have "\<exists>l'. map_of (enqueue cmp ord ?h m) (loc_price e) = Some l' \<and> loc_order e \<in> set (orders l')"
        if "map_of m (loc_price e) = Some l" for cmp m
        using that l(2) by (auto simp: map_of_enqueue push_order_def)
      with l(1) have "\<exists>l. map_of (if is_bid e then bids ?s' else asks ?s') (loc_price e) = Some l \<and>
          loc_order e \<in> set (orders l)"
        using l(2) by (auto simp: f)
      with it oid nh show ?thesis by (simp add: f)
    qed
  qed
  from 1 2 3 4 5 6 show ?thesis
    unfolding book_ok_def by blast
qed

lemma book_ok_ctor: "book_ok OrderBook_ctor"
  by (simp add: book_ok_def OrderBook_ctor_def locator_ok_def)

lemma uncrossed_ctor: "uncrossed OrderBook_ctor"
  by (simp add: uncrossed_def OrderBook_ctor_def)

lemma clear_fields [simp]:
  "bids (clear s) = []" "asks (clear s) = []" "order_lookup (clear s) = Map.empty"
  "total_orders_added (clear s) = 0" "total_orders_cancelled (clear s) = 0"
  "total_orders_matched (clear s) = 0" "trade_log (clear s) = trade_log s"
  by (simp_all add: clear_def Let_def)

lemma book_ok_clear: "book_ok (clear s)"
  by (simp add: book_ok_def locator_ok_def)

lemma uncrossed_clear: "uncrossed (clear s)"
  by (simp add: uncrossed_def)

lemma add_order_book_ok:
  assumes "book_ok s"
  shows "\<exists>s'. add_order s ord = Some s' \<and> book_ok s' \<and> uncrossed s'"
proof -
  from match_orders_book_ok [OF insert_order_book_ok [OF assms, of ord]]
  obtain s' where "match_orders (insert_order s ord) = Some s'" "book_ok s'" "\<not> crossing s'"
    by blast
  then show ?thesis
    by (auto simp: add_order_def intro: not_crossing_uncrossed)
qed

subsection \<open>\<open>cancel_order\<close>\<close>

lemma unlink_split:
  assumes "map_of m k = Some l"
  shows "\<exists>m1 m2. m = m1 @ (k, l) # m2 \<and> k \<notin> fst ` set m1 \<and>
     unlink k it q m =
       m1 @ (if remove1 it (orders l) = [] then [] else [(k, drop_order it q l)]) @ m2"
proof -
  from map_of_split [OF assms] obtain m1 m2 where
    m: "m = m1 @ (k, l) # m2" "k \<notin> fst ` set m1"
    and f: "\<forall>f. map_modify k f m = m1 @ (k, f l) # m2"
    by blast
  have d: "(\<lambda>l. l\<lparr>total_quantity := total_quantity l - q, orders := remove1 it (orders l)\<rparr>) =
      drop_order it q"
    by (simp add: fun_eq_iff drop_order_def)
  from f have mm: "map_modify k (drop_order it q) m = m1 @ (k, drop_order it q l) # m2"
    by simp
  have look: "map_of (m1 @ (k, drop_order it q l) # m2) k = Some (drop_order it q l)"
    using m(2) by (simp add: map_of_append_absent del: map_of_append)
  have "unlink k it q m =
      (if orders (drop_order it q l) = [] then map_erase k (m1 @ (k, drop_order it q l) # m2)
       else m1 @ (k, drop_order it q l) # m2)"
    unfolding unlink_def d Let_def mm look by simp
  also have "\<dots> = m1 @ (if remove1 it (orders l) = [] then [] else [(k, drop_order it q l)]) @ m2"
    by (simp add: map_erase_append [OF m(2)] drop_order_def)
  finally show ?thesis using m by blast
qed

lemma remove_order_from_book_fields:
  "order_lookup (remove_order_from_book s e) = order_lookup s"
  "order_pool (remove_order_from_book s e) = order_pool s"
  "deref (remove_order_from_book s e) = deref s"
  "total_orders_added (remove_order_from_book s e) = total_orders_added s"
  "total_orders_cancelled (remove_order_from_book s e) = total_orders_cancelled s"
  "total_orders_matched (remove_order_from_book s e) = total_orders_matched s"
  "trade_log (remove_order_from_book s e) = trade_log s"
  by (simp_all add: remove_order_from_book_def deallocate_def deref_def fun_eq_iff
      split: option.split)

lemma remove_order_from_book_sides:
  "bids (remove_order_from_book s e) =
     (if is_bid e \<and> map_of (bids s) (loc_price e) \<noteq> None
      then unlink (loc_price e) (list_iter e) (quantity (deref s (loc_order e))) (bids s)
      else bids s)"
  "asks (remove_order_from_book s e) =
     (if \<not> is_bid e \<and> map_of (asks s) (loc_price e) \<noteq> None
      then unlink (loc_price e) (list_iter e) (quantity (deref s (loc_order e))) (asks s)
      else asks s)"
  by (auto simp: remove_order_from_book_def split: option.split)

lemma cancel_order_fields:
  assumes "order_lookup s i = Some e"
  shows "fst (cancel_order s i) = True"
    and "bids (snd (cancel_order s i)) = bids (remove_order_from_book s e)"
    and "asks (snd (cancel_order s i)) = asks (remove_order_from_book s e)"
    and "order_lookup (snd (cancel_order s i)) = (order_lookup s)(i := None)"
    and "order_pool (snd (cancel_order s i)) = order_pool s"
    and "deref (snd (cancel_order s i)) = deref s"
    and "total_orders_added (snd (cancel_order s i)) = total_orders_added s"
    and "total_orders_cancelled (snd (cancel_order s i)) = total_orders_cancelled s + 1"
    and "total_orders_matched (snd (cancel_order s i)) = total_orders_matched s"
    and "trade_log (snd (cancel_order s i)) = trade_log s"
  using assms
  by (simp_all add: cancel_order_def Let_def remove_order_from_book_fields deref_def fun_eq_iff)

lemma cancel_order_absent: "order_lookup s i = None \<Longrightarrow> cancel_order s i = (False, s)"
  by (simp add: cancel_order_def)

text \<open>A side index from which the order \<open>h\<close> of the level at \<open>k\<close> was unlinked.\<close>

lemma sorted_wrt_unlinked:
  "sorted_wrt cmp (map fst (m1 @ (k, l) # m2)) \<Longrightarrow>
   sorted_wrt cmp (map fst (m1 @ (if c then [] else [(k, l')]) @ m2))"
  by (auto simp: sorted_wrt_append)

lemma sum_quantity_remove1:
  "h \<in> set xs \<Longrightarrow>
   (\<Sum>p\<leftarrow>remove1 h xs. quantity (deref s p)) = (\<Sum>p\<leftarrow>xs. quantity (deref s p)) - quantity (deref s h)"
  by (induction xs) auto

lemma levels_ok_unlinked:
  assumes "levels_ok s (m1 @ (k, l) # m2)" "h \<in> set (orders l)"
  shows "levels_ok s (m1 @ (if remove1 h (orders l) = [] then []
                            else [(k, drop_order h (quantity (deref s h)) l)]) @ m2)"
  using assms by (auto simp: level_ok_def drop_order_def sum_quantity_remove1)

lemma handles_unlinked:
  "handles (m1 @ (if remove1 h (orders l) = [] then [] else [(k, drop_order h q l)]) @ m2) =
     handles m1 @ remove1 h (orders l) @ handles m2"
  by (simp add: drop_order_def)

lemma map_of_unlinked:
  assumes "map_of (m1 @ (k, l) # m2) k' = Some l'" "p \<in> set (orders l')" "p \<noteq> h"
    and "k \<notin> fst ` set m1"
  shows "\<exists>l''. map_of (m1 @ (if remove1 h (orders l) = [] then [] else [(k, drop_order h q l)]) @ m2) k'
           = Some l'' \<and> p \<in> set (orders l'')"
proof (cases "k' = k")
  case True
  with assms(1,4) have "l' = l"
    by (simp add: map_of_append_absent del: map_of_append)
  with assms(2,3) have "p \<in> set (remove1 h (orders l))" by simp
  then show ?thesis
    using True assms(4)
    by (auto simp: map_of_append_absent drop_order_def simp del: map_of_append)
next
  case False
  have "map_of (m1 @ (if remove1 h (orders l) = [] then [] else [(k, drop_order h q l)]) @ m2) k'
      = map_of (m1 @ (k, l) # m2) k'"
    using False by (simp add: map_add_def split: option.split)
  with assms(1,2) show ?thesis by simp
qed

lemma hd_unlinked:
  assumes "sorted_wrt cmp (map fst (m1 @ (k, l) # m2))"
    and "m' = m1 @ (if c then [] else [(k, l')]) @ m2" "m' \<noteq> []"
  shows "fst (hd m') = fst (hd (m1 @ (k, l) # m2)) \<or> cmp (fst (hd (m1 @ (k, l) # m2))) (fst (hd m'))"
  using assms by (cases m1; cases m2; cases c) (auto simp: sorted_wrt_append)

lemma cancel_order_shape:
  assumes ok: "book_ok s" and e: "order_lookup s i = Some e"
  obtains l m1 m2 where
    "side_of s e = m1 @ (loc_price e, l) # m2" "loc_price e \<notin> fst ` set m1"
    "loc_order e \<in> set (orders l)" "list_iter e = loc_order e"
    "order_id (deref s (loc_order e)) = i"
    "bids (snd (cancel_order s i)) =
       (if is_bid e
        then m1 @ (if remove1 (loc_order e) (orders l) = [] then []
                   else [(loc_price e, drop_order (loc_order e) (quantity (deref s (loc_order e))) l)]) @ m2
        else bids s)"
    "asks (snd (cancel_order s i)) =
       (if is_bid e then asks s
        else m1 @ (if remove1 (loc_order e) (orders l) = [] then []
                   else [(loc_price e, drop_order (loc_order e) (quantity (deref s (loc_order e))) l)]) @ m2)"
proof -
  from ok have "locator_ok s" by (simp add: book_ok_def)
  with e have it: "list_iter e = loc_order e"
    and oid: "order_id (deref s (loc_order e)) = i"
    and lvl: "\<exists>l. map_of (side_of s e) (loc_price e) = Some l \<and> loc_order e \<in> set (orders l)"
    unfolding locator_ok_def side_of_def by blast+
  from lvl obtain l where l: "map_of (side_of s e) (loc_price e) = Some l"
    "loc_order e \<in> set (orders l)" by blast
  from unlink_split [OF l(1), of "loc_order e" "quantity (deref s (loc_order e))"]
  obtain m1 m2 where m: "side_of s e = m1 @ (loc_price e, l) # m2" "loc_price e \<notin> fst ` set m1"
    and u: "unlink (loc_price e) (loc_order e) (quantity (deref s (loc_order e))) (side_of s e) =
      m1 @ (if remove1 (loc_order e) (orders l) = [] then []
            else [(loc_price e, drop_order (loc_order e) (quantity (deref s (loc_order e))) l)]) @ m2"
    by blast
  have b: "bids (snd (cancel_order s i)) =
       (if is_bid e
        then m1 @ (if remove1 (loc_order e) (orders l) = [] then []
                   else [(loc_price e, drop_order (loc_order e) (quantity (deref s (loc_order e))) l)]) @ m2
        else bids s)"
    using l(1) u
    by (cases "is_bid e")
      (simp_all add: cancel_order_fields [OF e] remove_order_from_book_sides it side_of_def)
  have a: "asks (snd (cancel_order s i)) =
       (if is_bid e then asks s
        else m1 @ (if remove1 (loc_order e) (orders l) = [] then []
                   else [(loc_price e, drop_order (loc_order e) (quantity (deref s (loc_order e))) l)]) @ m2)"
    using l(1) u
    by (cases "is_bid e")
      (simp_all add: cancel_order_fields [OF e] remove_order_from_book_sides it side_of_def)
  from m l(2) it oid b a that show thesis by blast
qed

lemma cancel_order_book_ok:
  assumes ok: "book_ok s"
  shows "book_ok (snd (cancel_order s i))"
proof (cases "order_lookup s i")
  case None
  with ok show ?thesis by (simp add: cancel_order_absent)
next
  case (Some e)
  let ?s' = "snd (cancel_order s i)"
  let ?h = "loc_order e"
  let ?k = "loc_price e"
  note f = cancel_order_fields [OF Some]
  from ok Some obtain l m1 m2 where
    m: "side_of s e = m1 @ (?k, l) # m2" and k: "?k \<notin> fst ` set m1"
    and h: "?h \<in> set (orders l)" and oid: "order_id (deref s ?h) = i"
    and b: "bids ?s' =
       (if is_bid e
        then m1 @ (if remove1 ?h (orders l) = [] then []
                   else [(?k, drop_order ?h (quantity (deref s ?h)) l)]) @ m2
        else bids s)"
    and a: "asks ?s' =
       (if is_bid e then asks s
        else m1 @ (if remove1 ?h (orders l) = [] then []
                   else [(?k, drop_order ?h (quantity (deref s ?h)) l)]) @ m2)"
    by (rule cancel_order_shape)
  let ?m' = "m1 @ (if remove1 ?h (orders l) = [] then []
                   else [(?k, drop_order ?h (quantity (deref s ?h)) l)]) @ m2"
  from ok have sorted: "sorted_wrt (>) (map fst (bids s))" "sorted_wrt (<) (map fst (asks s))"
    and dist: "distinct (handles (bids s) @ handles (asks s))"
    and bound: "\<forall>p \<in> set (handles (bids s) @ handles (asks s)). p < allocated (order_pool s)"
    and lv: "levels_ok s (bids s)" "levels_ok s (asks s)"
    and loc: "locator_ok s"
    by (simp_all add: book_ok_def)
  have lv_eq: "levels_ok ?s' n = levels_ok s n" for n
    by (rule levels_ok_cong) (simp add: f)
  have hm': "handles ?m' = handles m1 @ remove1 ?h (orders l) @ handles m2"
    by (rule handles_unlinked)
  have "book_ok ?s'" if bid: "is_bid e"
  proof -
    from m bid have mb: "bids s = m1 @ (?k, l) # m2" by (simp add: side_of_def)
    from b bid have b': "bids ?s' = ?m'" by simp
    from a bid have a': "asks ?s' = asks s" by simp
    have 1: "sorted_wrt (>) (map fst (bids ?s'))"
      unfolding b' using sorted(1) unfolding mb by (rule sorted_wrt_unlinked)
    have 2: "distinct (handles (bids ?s') @ handles (asks ?s'))"
      using dist unfolding b' a' hm' mb by auto
    have 3: "\<forall>p \<in> set (handles (bids ?s') @ handles (asks ?s')). p < allocated (order_pool ?s')"
      using bound unfolding b' a' hm' mb f by (auto dest: set_remove1_subset [THEN subsetD])
    have 4: "levels_ok ?s' (bids ?s')"
      unfolding lv_eq b' using lv(1) h unfolding mb by (rule levels_ok_unlinked)
    have 5: "levels_ok ?s' (asks ?s')"
      unfolding lv_eq a' by (rule lv(2))
    have 6: "locator_ok ?s'"
      unfolding locator_ok_def
    proof (intro allI impI)
      fix j e'
      assume "order_lookup ?s' j = Some e'"
      then have j: "j \<noteq> i" "order_lookup s j = Some e'"
        by (auto simp: f split: if_splits)
      from loc j(2) have it: "list_iter e' = loc_order e'"
        and oid': "order_id (deref s (loc_order e')) = j"
        and lvl: "\<exists>l. map_of (if is_bid e' then bids s else asks s) (loc_price e') = Some l \<and>
                 loc_order e' \<in> set (orders l)"
        unfolding locator_ok_def by blast+
      from oid oid' j(1) have nh: "loc_order e' \<noteq> ?h" by auto
      have "\<exists>l. map_of (if is_bid e' then bids ?s' else asks ?s') (loc_price e') = Some l \<and>
          loc_order e' \<in> set (orders l)"
      proof (cases "is_bid e'")
        case True
        with lvl have "\<exists>l'. map_of (bids s) (loc_price e') = Some l' \<and>
            loc_order e' \<in> set (orders l')" by simp
        then obtain l' where "map_of (m1 @ (?k, l) # m2) (loc_price e') = Some l'"
          "loc_order e' \<in> set (orders l')" unfolding mb by blast
        from map_of_unlinked [OF this nh k] True show ?thesis
          unfolding b' by simp
      next
        case False
        with lvl show ?thesis unfolding a' by simp
      qed
      with it oid' show "list_iter e' = loc_order e' \<and> order_id (deref ?s' (loc_order e')) = j \<and>
          (\<exists>l. map_of (if is_bid e' then bids ?s' else asks ?s') (loc_price e') = Some l \<and>
               loc_order e' \<in> set (orders l))"
        by (simp add: f)
    qed
    from 1 sorted(2) 2 3 4 5 6 show ?thesis
      unfolding book_ok_def a' by blast
  qed
  moreover have "book_ok ?s'" if ask: "\<not> is_bid e"
  proof -
    from m ask have ma: "asks s = m1 @ (?k, l) # m2" by (simp add: side_of_def)
    from a ask have a': "asks ?s' = ?m'" by simp
    from b ask have b': "bids ?s' = bids s" by simp
    have 1: "sorted_wrt (<) (map fst (asks ?s'))"
      unfolding a' using sorted(2) unfolding ma by (rule sorted_wrt_unlinked)
    have 2: "distinct (handles (bids ?s') @ handles (asks ?s'))"
      using dist unfolding b' a' hm' ma by auto
    have 3: "\<forall>p \<in> set (handles (bids ?s') @ handles (asks ?s')). p < allocated (order_pool ?s')"
      using bound unfolding b' a' hm' ma f by (auto dest: set_remove1_subset [THEN subsetD])
    have 4: "levels_ok ?s' (asks ?s')"
      unfolding lv_eq a' using lv(2) h unfolding ma by (rule levels_ok_unlinked)
    have 5: "levels_ok ?s' (bids ?s')"
      unfolding lv_eq b' by (rule lv(1))
    have 6: "locator_ok ?s'"
      unfolding locator_ok_def
    proof (intro allI impI)
      fix j e'
      assume "order_lookup ?s' j = Some e'"
      then have j: "j \<noteq> i" "order_lookup s j = Some e'"
        by (auto simp: f split: if_splits)
      from loc j(2) have it: "list_iter e' = loc_order e'"
        and oid': "order_id (deref s (loc_order e')) = j"
        and lvl: "\<exists>l. map_of (if is_bid e' then bids s else asks s) (loc_price e') = Some l \<and>
                 loc_order e' \<in> set (orders l)"
        unfolding locator_ok_def by blast+
      from oid oid' j(1) have nh: "loc_order e' \<noteq> ?h" by auto
      have "\<exists>l. map_of (if is_bid e' then bids ?s' else asks ?s') (loc_price e') = Some l \<and>
          loc_order e' \<in> set (orders l)"
      proof (cases "is_bid e'")
        case False
        with lvl have "\<exists>l'. map_of (asks s) (loc_price e') = Some l' \<and>
            loc_order e' \<in> set (orders l')" by simp
        then obtain l' where "map_of (m1 @ (?k, l) # m2) (loc_price e') = Some l'"
          "loc_order e' \<in> set (orders l')" unfolding ma by blast
        from map_of_unlinked [OF this nh k] False show ?thesis
          unfolding a' by simp
      next
        case True
        with lvl show ?thesis unfolding b' by simp
      qed
      with it oid' show "list_iter e' = loc_order e' \<and> order_id (deref ?s' (loc_order e')) = j \<and>
          (\<exists>l. map_of (if is_bid e' then bids ?s' else asks ?s') (loc_price e') = Some l \<and>
               loc_order e' \<in> set (orders l))"
        by (simp add: f)
    qed
    from 1 sorted(1) 2 3 4 5 6 show ?thesis
      unfolding book_ok_def b' by blast
  qed
  ultimately show ?thesis by blast
qed

lemma cancel_order_uncrossed:
  assumes ok: "book_ok s" and un: "uncrossed s"
  shows "uncrossed (snd (cancel_order s i))"
proof (cases "order_lookup s i")
  case None
  with un show ?thesis by (simp add: cancel_order_absent)
next
  case (Some e)
  let ?s' = "snd (cancel_order s i)"
  from ok Some obtain l m1 m2 where
    m: "side_of s e = m1 @ (loc_price e, l) # m2"
    and b: "bids ?s' =
       (if is_bid e
        then m1 @ (if remove1 (loc_order e) (orders l) = [] then []
                   else [(loc_price e, drop_order (loc_order e) (quantity (deref s (loc_order e))) l)]) @ m2
        else bids s)"
    and a: "asks ?s' =
       (if is_bid e then asks s
        else m1 @ (if remove1 (loc_order e) (orders l) = [] then []
                   else [(loc_price e, drop_order (loc_order e) (quantity (deref s (loc_order e))) l)]) @ m2)"
    by (rule cancel_order_shape)
  from ok have sorted: "sorted_wrt (>) (map fst (bids s))" "sorted_wrt (<) (map fst (asks s))"
    by (simp_all add: book_ok_def)
  show ?thesis
  proof (cases "is_bid e")
    case True
    with m have mb: "bids s = m1 @ (loc_price e, l) # m2" by (simp add: side_of_def)
    from a True have a': "asks ?s' = asks s" by simp
    from b True have b': "bids ?s' = m1 @ (if remove1 (loc_order e) (orders l) = [] then []
        else [(loc_price e, drop_order (loc_order e) (quantity (deref s (loc_order e))) l)]) @ m2"
      by simp
    have "fst (hd (bids ?s')) \<le> fst (hd (bids s))" if "bids ?s' \<noteq> []"
      using hd_unlinked [OF sorted(1) [unfolded mb] b' that] unfolding mb by auto
    moreover have "bids s \<noteq> []" using mb by simp
    ultimately show ?thesis
      using un unfolding uncrossed_def a' by fastforce
  next
    case False
    with m have ma: "asks s = m1 @ (loc_price e, l) # m2" by (simp add: side_of_def)
    from b False have b': "bids ?s' = bids s" by simp
    from a False have a': "asks ?s' = m1 @ (if remove1 (loc_order e) (orders l) = [] then []
        else [(loc_price e, drop_order (loc_order e) (quantity (deref s (loc_order e))) l)]) @ m2"
      by simp
    have "fst (hd (asks s)) \<le> fst (hd (asks ?s'))" if "asks ?s' \<noteq> []"
      using hd_unlinked [OF sorted(2) [unfolded ma] a' that] unfolding ma by auto
    moreover have "asks s \<noteq> []" using ma by simp
    ultimately show ?thesis
      using un unfolding uncrossed_def b' by fastforce
  qed
qed

subsection \<open>\<open>amend_order\<close>\<close>

lemma amend_order_cases:
  "order_lookup s i = None \<Longrightarrow> amend_order s i p q = Some (False, s)"
  "order_lookup s i = Some e \<Longrightarrow> p \<noteq> price (deref s (loc_order e)) \<Longrightarrow>
   amend_order s i p q =
     map_option (Pair True)
       (add_order (snd (cancel_order s i)) ((deref s (loc_order e))\<lparr>price := p, quantity := q\<rparr>))"
  "order_lookup s i = Some e \<Longrightarrow> p = price (deref s (loc_order e)) \<Longrightarrow>
   q \<noteq> quantity (deref s (loc_order e)) \<Longrightarrow>
   amend_order s i p q = map_option (Pair True) (match_orders (requantified s e q))"
  "order_lookup s i = Some e \<Longrightarrow> p = price (deref s (loc_order e)) \<Longrightarrow>
   q = quantity (deref s (loc_order e)) \<Longrightarrow> amend_order s i p q = Some (True, s)"
  by (simp_all add: amend_order_def Let_def requantified_def)

lemma retotal_alt: "retotal k old new m = map_modify k (set_total old new) m"
proof -
  have "(\<lambda>l. l\<lparr>total_quantity := total_quantity l - old + new\<rparr>) = set_total old new"
    by (simp add: fun_eq_iff set_total_def)
  then show ?thesis
    by (simp add: retotal_def map_modify_absent split: option.split)
qed

lemma requantified_fields:
  "bids (requantified s e q) =
     (if is_bid e
      then map_modify (loc_price e) (set_total (quantity (deref s (loc_order e))) q) (bids s)
      else bids s)"
  "asks (requantified s e q) =
     (if is_bid e then asks s
      else map_modify (loc_price e) (set_total (quantity (deref s (loc_order e))) q) (asks s))"
  "order_lookup (requantified s e q) = order_lookup s"
  "allocated (order_pool (requantified s e q)) = allocated (order_pool s)"
  "deref (requantified s e q) = (deref s)(loc_order e := (deref s (loc_order e))\<lparr>quantity := q\<rparr>)"
  "total_orders_added (requantified s e q) = total_orders_added s"
  "total_orders_cancelled (requantified s e q) = total_orders_cancelled s"
  "total_orders_matched (requantified s e q) = total_orders_matched s"
  "trade_log (requantified s e q) = trade_log s"
  by (simp_all add: requantified_def Let_def retotal_alt set_quantity_def deref_def fun_eq_iff)

lemma handles_map_modify_set_total [simp]:
  "handles (map_modify k (set_total old new) m) = handles m"
  by (induction m) (auto simp: set_total_def)

lemma map_of_set_total:
  "map_of m k' = Some l \<Longrightarrow>
   \<exists>l'. map_of (map_modify k (set_total old new) m) k' = Some l' \<and> orders l' = orders l"
  by (auto simp: map_of_map_modify set_total_def)

lemma sum_list_u64_cong:
  "(\<And>p. p \<in> set xs \<Longrightarrow> f' p = f p) \<Longrightarrow> (\<Sum>p\<leftarrow>xs. f' p :: u64) = (\<Sum>p\<leftarrow>xs. f p)"
  by (induction xs) auto

lemma sum_quantity_update:
  "distinct xs \<Longrightarrow> h \<in> set xs \<Longrightarrow> (\<And>p. p \<noteq> h \<Longrightarrow> f' p = f p) \<Longrightarrow>
   (\<Sum>p\<leftarrow>xs. f' p :: u64) = (\<Sum>p\<leftarrow>xs. f p) - f h + f' h"
proof (induction xs)
  case Nil
  then show ?case by simp
next
  case (Cons x xs)
  show ?case
  proof (cases "x = h")
    case True
    with Cons.prems(1) have "h \<notin> set xs" by simp
    have "(\<Sum>p\<leftarrow>xs. f' p) = (\<Sum>p\<leftarrow>xs. f p)"
    proof (rule sum_list_u64_cong)
      fix p assume "p \<in> set xs"
      with \<open>h \<notin> set xs\<close> have "p \<noteq> h" by auto
      then show "f' p = f p" by (rule Cons.prems(3))
    qed
    with True show ?thesis by simp
  next
    case False
    with Cons.prems have "(\<Sum>p\<leftarrow>xs. f' p) = (\<Sum>p\<leftarrow>xs. f p) - f h + f' h"
      by (intro Cons.IH) auto
    with False Cons.prems(3) [of x] show ?thesis by simp
  qed
qed

lemma levels_ok_requantified:
  assumes ok: "levels_ok s m" and dist: "distinct (handles m)"
    and l: "map_of m k = Some l" "h \<in> set (orders l)"
    and d: "deref s' = (deref s)(h := (deref s h)\<lparr>quantity := q\<rparr>)"
  shows "levels_ok s' (map_modify k (set_total (quantity (deref s h)) q) m)"
proof -
  from map_of_split [OF l(1)] obtain m1 m2 where
    m: "m = m1 @ (k, l) # m2"
    and f: "\<forall>f. map_modify k f m = m1 @ (k, f l) # m2"
    by blast
  from dist m l(2) have nh: "h \<notin> set (handles m1)" "h \<notin> set (handles m2)"
    and dl: "distinct (orders l)" by auto
  have keep: "levels_ok s' n" if "levels_ok s n" "h \<notin> set (handles n)" for n
  proof -
    have "levels_ok s' n = levels_ok s n"
      by (rule levels_ok_cong) (use that(2) d in auto)
    with that(1) show ?thesis by simp
  qed
  from ok m have "levels_ok s m1" "levels_ok s m2" "level_ok s l" by simp_all
  with nh keep have 12: "levels_ok s' m1" "levels_ok s' m2" by blast+
  have "(\<Sum>p\<leftarrow>orders l. quantity (deref s' p)) =
      (\<Sum>p\<leftarrow>orders l. quantity (deref s p)) - quantity (deref s h) + quantity (deref s' h)"
    by (rule sum_quantity_update [OF dl l(2)]) (simp add: d)
  with \<open>level_ok s l\<close> have "level_ok s' (set_total (quantity (deref s h)) q l)"
    by (simp add: level_ok_def set_total_def d)
  with 12 f show ?thesis by simp
qed

lemma requantified_book_ok:
  assumes ok: "book_ok s" and e: "order_lookup s i = Some e"
  shows "book_ok (requantified s e q)"
proof -
  let ?s' = "requantified s e q"
  let ?h = "loc_order e"
  note f = requantified_fields [of s e q]
  from ok have sorted: "sorted_wrt (>) (map fst (bids s))" "sorted_wrt (<) (map fst (asks s))"
    and dist: "distinct (handles (bids s) @ handles (asks s))"
    and bound: "\<forall>p \<in> set (handles (bids s) @ handles (asks s)). p < allocated (order_pool s)"
    and lv: "levels_ok s (bids s)" "levels_ok s (asks s)"
    and loc: "locator_ok s"
    by (simp_all add: book_ok_def)
  from loc e obtain l where l: "map_of (if is_bid e then bids s else asks s) (loc_price e) = Some l"
    "?h \<in> set (orders l)"
    unfolding locator_ok_def by blast
  have keep: "levels_ok ?s' n" if "levels_ok s n" "?h \<notin> set (handles n)" for n
  proof -
    have "levels_ok ?s' n = levels_ok s n"
      by (rule levels_ok_cong) (use that(2) in \<open>auto simp: f\<close>)
    with that(1) show ?thesis by simp
  qed
  have 1: "sorted_wrt (>) (map fst (bids ?s'))" "sorted_wrt (<) (map fst (asks ?s'))"
    using sorted by (simp_all add: f)
  have hs: "handles (bids ?s') = handles (bids s)" "handles (asks ?s') = handles (asks s)"
    by (simp_all add: f)
  have 45: "levels_ok ?s' (bids ?s') \<and> levels_ok ?s' (asks ?s')"
  proof (cases "is_bid e")
    case True
    with l have l': "map_of (bids s) (loc_price e) = Some l" by simp
    from map_of_handles [OF l'] l(2) dist have "?h \<notin> set (handles (asks s))" by auto
    from keep [OF lv(2) this]
      levels_ok_requantified [OF lv(1) _ l' l(2) f(5)] dist True
    show ?thesis by (simp add: f)
  next
    case False
    with l have l': "map_of (asks s) (loc_price e) = Some l" by simp
    from map_of_handles [OF l'] l(2) dist have "?h \<notin> set (handles (bids s))" by auto
    from keep [OF lv(1) this]
      levels_ok_requantified [OF lv(2) _ l' l(2) f(5)] dist False
    show ?thesis by (simp add: f)
  qed
  have 6: "locator_ok ?s'"
    unfolding locator_ok_def
  proof (intro allI impI)
    fix j e'
    assume "order_lookup ?s' j = Some e'"
    then have j: "order_lookup s j = Some e'" by (simp add: f)
    from loc j have it: "list_iter e' = loc_order e'"
      and oid': "order_id (deref s (loc_order e')) = j"
      and lvl: "\<exists>l. map_of (if is_bid e' then bids s else asks s) (loc_price e') = Some l \<and>
               loc_order e' \<in> set (orders l)"
      unfolding locator_ok_def by blast+
    from lvl obtain l' where l': "map_of (if is_bid e' then bids s else asks s) (loc_price e') = Some l'"
      "loc_order e' \<in> set (orders l')" by blast
    have side: "\<exists>l. map_of (map_modify k (set_total old q) m) (loc_price e') = Some l \<and>
        loc_order e' \<in> set (orders l)" if "map_of m (loc_price e') = Some l'" for m k old
      using map_of_set_total [OF that, of k old q] l'(2) by auto
    have "\<exists>l. map_of (if is_bid e' then bids ?s' else asks ?s') (loc_price e') = Some l \<and>
        loc_order e' \<in> set (orders l)"
    proof (cases "is_bid e'")
      case True
      with l' have "map_of (bids s) (loc_price e') = Some l'" by simp
      from side [OF this] l' True show ?thesis
        by (cases "is_bid e") (auto simp: f)
    next
      case False
      with l' have "map_of (asks s) (loc_price e') = Some l'" by simp
      from side [OF this] l' False show ?thesis
        by (cases "is_bid e") (auto simp: f)
    qed
    moreover have "order_id (deref ?s' (loc_order e')) = j"
      using oid' by (auto simp: f)
    ultimately show "list_iter e' = loc_order e' \<and> order_id (deref ?s' (loc_order e')) = j \<and>
        (\<exists>l. map_of (if is_bid e' then bids ?s' else asks ?s') (loc_price e') = Some l \<and>
             loc_order e' \<in> set (orders l))"
      using it by blast
  qed
  from 1 dist bound 45 6 show ?thesis
    unfolding book_ok_def hs f(4) by blast
qed

lemma requantified_uncrossed:
  assumes "uncrossed s"
  shows "uncrossed (requantified s e q)"
proof -
  have 1: "fst (hd (map_modify k f m)) = fst (hd m)" for k f m
    by (cases m) auto
  have 2: "map_modify k f m = [] \<longleftrightarrow> m = []" for k f m
    using map_modify_keys [of k f m] by (metis map_is_Nil_conv)
  from assms show ?thesis
    by (simp add: uncrossed_def requantified_fields 1 2)
qed

lemma amend_order_book_ok:
  assumes ok: "book_ok s" and un: "uncrossed s"
  shows "\<exists>r s'. amend_order s i p q = Some (r, s') \<and> book_ok s' \<and> uncrossed s'"
proof (cases "order_lookup s i")
  case None
  with ok un show ?thesis
    by (intro exI [of _ False] exI [of _ s]) (simp add: amend_order_cases)
next
  case (Some e)
  show ?thesis
  proof (cases "p = price (deref s (loc_order e))")
    case False
    from add_order_book_ok [OF cancel_order_book_ok [OF ok, of i]]
    obtain s' where "add_order (snd (cancel_order s i))
        ((deref s (loc_order e))\<lparr>price := p, quantity := q\<rparr>) = Some s'" "book_ok s'" "uncrossed s'"
      by blast
    with Some False show ?thesis
      by (intro exI [of _ True] exI [of _ s']) (simp add: amend_order_cases)
  next
    case True
    show ?thesis
    proof (cases "q = quantity (deref s (loc_order e))")
      case True
      with Some \<open>p = price (deref s (loc_order e))\<close> ok un show ?thesis
        by (intro exI [of _ True] exI [of _ s]) (simp add: amend_order_cases)
    next
      case False
      note ok' = requantified_book_ok [OF ok Some, of q]
      note un' = requantified_uncrossed [OF un, of e q]
      from match_orders_idle [OF uncrossed_not_crossing [OF un']] Some True False ok' un'
      show ?thesis
        by (intro exI [of _ True] exI [of _ "requantified s e q"]) (simp add: amend_order_cases)
    qed
  qed
qed

subsection \<open>Every sequence of operations runs to its end, on a well-formed book\<close>

lemma exec_book_ok:
  assumes "book_ok s" "uncrossed s"
  shows "\<exists>s'. exec c s = Some s' \<and> book_ok s' \<and> uncrossed s'"
proof (cases c)
  case (AddOrder ord)
  with add_order_book_ok [OF assms(1), of ord] show ?thesis by simp
next
  case (CancelOrder i)
  with cancel_order_book_ok [OF assms(1), of i] cancel_order_uncrossed [OF assms, of i]
  show ?thesis by simp
next
  case (AmendOrder i p q)
  from amend_order_book_ok [OF assms, of i p q] obtain r s' where
    "amend_order s i p q = Some (r, s')" "book_ok s'" "uncrossed s'" by blast
  with AmendOrder show ?thesis by simp
next
  case Clear
  then show ?thesis by (simp add: book_ok_clear uncrossed_clear)
qed

lemma run_book_ok:
  "book_ok s \<Longrightarrow> uncrossed s \<Longrightarrow> \<exists>s'. run cs s = Some s' \<and> book_ok s' \<and> uncrossed s'"
proof (induction cs arbitrary: s)
  case Nil
  then show ?case by simp
next
  case (Cons c cs)
  from exec_book_ok [OF Cons.prems, of c] obtain s1 where
    s1: "exec c s = Some s1" "book_ok s1" "uncrossed s1" by blast
  from Cons.IH [OF s1(2,3)] s1(1) show ?case by simp
qed

lemma run_ctor_book_ok: "\<exists>s. run cs OrderBook_ctor = Some s \<and> book_ok s \<and> uncrossed s"
  by (rule run_book_ok [OF book_ok_ctor uncrossed_ctor])

lemma reachable_book_ok:
  assumes "run cs OrderBook_ctor = Some s"
  shows "book_ok s" "uncrossed s"
  using run_ctor_book_ok [of cs] assms by auto

lemma sorted_hd_bound:
  "sorted_wrt cmp (map fst m) \<Longrightarrow> e \<in> set m \<Longrightarrow> fst e = fst (hd m) \<or> cmp (fst (hd m)) (fst e)"
  by (cases m) auto

lemma bids_below_asks:
  assumes "book_ok s" "uncrossed s" "b \<in> set (bids s)" "a \<in> set (asks s)"
  shows "fst b < fst a"
proof -
  from assms(1) have sorted: "sorted_wrt (>) (map fst (bids s))" "sorted_wrt (<) (map fst (asks s))"
    by (simp_all add: book_ok_def)
  from assms(3,4) have "bids s \<noteq> []" "asks s \<noteq> []" by auto
  with assms(2) have "fst (hd (bids s)) < fst (hd (asks s))" by (simp add: uncrossed_def)
  with sorted_hd_bound [OF sorted(1) assms(3)] sorted_hd_bound [OF sorted(2) assms(4)]
  show ?thesis by auto
qed

subsection \<open>Counters and the trade log\<close>

lemma emitted_refl: "emitted s s []"
  by (simp add: emitted_def)

lemma emitted_trans: "emitted s s1 new1 \<Longrightarrow> emitted s1 s2 new2 \<Longrightarrow> emitted s s2 (new1 @ new2)"
  by (simp add: emitted_def)

lemma emitted_same:
  "trade_log s' = trade_log s \<Longrightarrow> total_orders_matched s' = total_orders_matched s \<Longrightarrow>
   emitted s s' []"
  by (simp add: emitted_def)

lemma match_orders_counters:
  assumes "book_ok s"
  shows "\<exists>s'. match_orders s = Some s' \<and>
     total_orders_added s' = total_orders_added s \<and>
     total_orders_cancelled s' = total_orders_cancelled s \<and>
     (\<exists>new. emitted s s' new \<and> (crossing s \<longrightarrow> new \<noteq> []))"
proof (rule match_orders_rule [OF assms])
  fix s assume "\<not> crossing s"
  then show "total_orders_added s = total_orders_added s \<and>
     total_orders_cancelled s = total_orders_cancelled s \<and>
     (\<exists>new. emitted s s new \<and> (crossing s \<longrightarrow> new \<noteq> []))"
    using emitted_refl by blast
next
  fix s s'
  assume "total_orders_added s' = total_orders_added (match_step s) \<and>
     total_orders_cancelled s' = total_orders_cancelled (match_step s) \<and>
     (\<exists>new. emitted (match_step s) s' new \<and> (crossing (match_step s) \<longrightarrow> new \<noteq> []))"
  then obtain new where c: "total_orders_added s' = total_orders_added s"
    "total_orders_cancelled s' = total_orders_cancelled s"
    and new: "emitted (match_step s) s' new" by auto
  have "emitted s (match_step s)
      [\<lparr>buy_order_id = order_id (deref s (buy_head s)),
        sell_order_id = order_id (deref s (sell_head s)),
        trade_qty = fill_qty s,
        trade_price = price (deref s (sell_head s))\<rparr>]"
    by (simp add: emitted_def match_step_trade_log)
  from emitted_trans [OF this new] c
  show "total_orders_added s' = total_orders_added s \<and>
     total_orders_cancelled s' = total_orders_cancelled s \<and>
     (\<exists>new. emitted s s' new \<and> (crossing s \<longrightarrow> new \<noteq> []))"
    by auto
qed

lemma add_order_counters:
  assumes "book_ok s"
  shows "\<exists>s'. add_order s ord = Some s' \<and> book_ok s' \<and> uncrossed s' \<and>
     total_orders_added s' = total_orders_added s + 1 \<and>
     total_orders_cancelled s' = total_orders_cancelled s \<and>
     (\<exists>new. emitted s s' new)"
proof -
  from add_order_book_ok [OF assms, of ord] obtain s' where
    s': "add_order s ord = Some s'" "book_ok s'" "uncrossed s'" by blast
  from match_orders_counters [OF insert_order_book_ok [OF assms, of ord]] s'(1)
  obtain new where "total_orders_added s' = total_orders_added s + 1"
    "total_orders_cancelled s' = total_orders_cancelled s"
    "emitted (insert_order s ord) s' new"
    by (auto simp: add_order_def)
  moreover from this(3) have "emitted s s' new"
    by (simp add: emitted_def)
  ultimately show ?thesis using s' by blast
qed

lemma cancel_order_emitted: "emitted s (snd (cancel_order s i)) []"
  by (cases "order_lookup s i")
    (simp_all add: cancel_order_absent emitted_refl emitted_same cancel_order_fields)

lemma amend_order_emitted:
  assumes ok: "book_ok s" and un: "uncrossed s"
  shows "\<exists>r s' new. amend_order s i p q = Some (r, s') \<and> emitted s s' new"
proof (cases "order_lookup s i")
  case None
  then show ?thesis
    by (simp add: amend_order_cases) (use emitted_refl in blast)
next
  case (Some e)
  show ?thesis
  proof (cases "p = price (deref s (loc_order e))")
    case False
    let ?s1 = "snd (cancel_order s i)"
    from add_order_counters [OF cancel_order_book_ok [OF ok, of i]]
    obtain s' new where "add_order ?s1
        ((deref s (loc_order e))\<lparr>price := p, quantity := q\<rparr>) = Some s'" "emitted ?s1 s' new"
      by blast
    with emitted_trans [OF cancel_order_emitted [of s i] this(2)] Some False show ?thesis
      by (intro exI [of _ True] exI [of _ s'] exI [of _ new]) (simp add: amend_order_cases)
  next
    case True
    show ?thesis
    proof (cases "q = quantity (deref s (loc_order e))")
      case True
      with Some \<open>p = price (deref s (loc_order e))\<close> show ?thesis
        by (intro exI [of _ True] exI [of _ s] exI [of _ "[]"])
          (simp add: amend_order_cases emitted_refl)
    next
      case False
      note un' = requantified_uncrossed [OF un, of e q]
      have "emitted s (requantified s e q) []"
        by (simp add: emitted_def requantified_fields)
      with match_orders_idle [OF uncrossed_not_crossing [OF un']] Some True False
      show ?thesis
        by (intro exI [of _ True] exI [of _ "requantified s e q"] exI [of _ "[]"])
          (simp add: amend_order_cases)
    qed
  qed
qed

lemma exec_emitted:
  assumes "book_ok s" "uncrossed s" "c \<noteq> Clear"
  shows "\<exists>s' new. exec c s = Some s' \<and> emitted s s' new"
proof (cases c)
  case (AddOrder ord)
  with add_order_counters [OF assms(1), of ord] show ?thesis by auto
next
  case (CancelOrder i)
  with cancel_order_emitted [of s i] show ?thesis by auto
next
  case (AmendOrder i p q)
  from amend_order_emitted [OF assms(1,2), of i p q] obtain r s' new where
    "amend_order s i p q = Some (r, s')" "emitted s s' new" by blast
  with AmendOrder show ?thesis by auto
next
  case Clear
  with assms(3) show ?thesis by simp
qed

lemma run_emitted:
  "book_ok s \<Longrightarrow> uncrossed s \<Longrightarrow> Clear \<notin> set cs \<Longrightarrow>
   \<exists>s' new. run cs s = Some s' \<and> emitted s s' new"
proof (induction cs arbitrary: s)
  case Nil
  then show ?case using emitted_refl by auto
next
  case (Cons c cs)
  from Cons.prems(3) have c: "c \<noteq> Clear" "Clear \<notin> set cs" by auto
  from exec_emitted [OF Cons.prems(1,2) c(1)] obtain s1 new1 where
    s1: "exec c s = Some s1" "emitted s s1 new1" by blast
  from exec_book_ok [OF Cons.prems(1,2), of c] s1(1) have "book_ok s1" "uncrossed s1" by auto
  from Cons.IH [OF this c(2)] obtain s' new2 where "run cs s1 = Some s'" "emitted s1 s' new2"
    by blast
  with s1 emitted_trans [OF s1(2) this(2)] show ?case by auto
qed

lemma unat_sum_list_u64:
  "(\<Sum>p\<leftarrow>xs. unat (f p :: u64)) < 2 ^ 64 \<Longrightarrow> unat (\<Sum>p\<leftarrow>xs. f p) = (\<Sum>p\<leftarrow>xs. unat (f p))"
proof (induction xs)
  case Nil
  then show ?case by simp
next
  case (Cons x xs)
  from Cons.prems have "(\<Sum>p\<leftarrow>xs. unat (f p)) < 2 ^ 64" by simp
  from Cons.IH [OF this] Cons.prems
  have "unat (f x) + unat (\<Sum>p\<leftarrow>xs. f p) < 2 ^ LENGTH(64)" by simp
  then have "unat (f x + (\<Sum>p\<leftarrow>xs. f p)) = unat (f x) + unat (\<Sum>p\<leftarrow>xs. f p)"
    by (simp only: unat_add_lem)
  with Cons.IH [OF \<open>(\<Sum>p\<leftarrow>xs. unat (f p)) < 2 ^ 64\<close>] show ?case by simp
qed

lemma u64_less_succ: "(x::u64) \<noteq> - 1 \<Longrightarrow> x < x + 1"
  using inc_less_eq_triv_imp [of x] by (auto simp: not_le [symmetric])

subsection \<open>Cancelling the order that was just added\<close>

lemma unlink_append:
  assumes "k \<notin> fst ` set m1"
  shows "unlink k it q (m1 @ (k, l) # m2) =
     m1 @ (if remove1 it (orders l) = [] then [] else [(k, drop_order it q l)]) @ m2"
proof -
  have d: "(\<lambda>l. l\<lparr>total_quantity := total_quantity l - q, orders := remove1 it (orders l)\<rparr>) =
      drop_order it q"
    by (simp add: fun_eq_iff drop_order_def)
  have look: "map_of (m1 @ (k, drop_order it q l) # m2) k = Some (drop_order it q l)"
    using assms by (simp add: map_of_append_absent del: map_of_append)
  have "unlink k it q (m1 @ (k, l) # m2) =
      (if orders (drop_order it q l) = [] then map_erase k (m1 @ (k, drop_order it q l) # m2)
       else m1 @ (k, drop_order it q l) # m2)"
    unfolding unlink_def d Let_def map_modify_append [OF assms] look by simp
  also have "\<dots> = m1 @ (if remove1 it (orders l) = [] then [] else [(k, drop_order it q l)]) @ m2"
    by (simp add: map_erase_append [OF assms] drop_order_def)
  finally show ?thesis .
qed

lemma unlink_enqueue:
  assumes fresh: "h \<notin> set (handles m)" and ne: "\<forall>e \<in> set m. orders (snd e) \<noteq> []"
  shows "unlink (price ord) h (quantity ord) (enqueue cmp ord h m) = m"
proof -
  from enqueue_split [of cmp ord h m] obtain m1 l m2 where
    e: "enqueue cmp ord h m = m1 @ (price ord, push_order h (quantity ord) l) # m2"
    and k: "price ord \<notin> fst ` set m1"
    and m: "m = m1 @ (price ord, l) # m2 \<or>
            m = m1 @ m2 \<and> l = PriceLevelData_ctor (price ord) \<and> map_of m (price ord) = None"
    by blast
  from m fresh have hl: "h \<notin> set (orders l)"
    by (auto simp: PriceLevelData_ctor_def)
  then have r: "remove1 h (orders (push_order h (quantity ord) l)) = orders l"
    by (simp add: push_order_def remove1_append)
  have restore: "drop_order h (quantity ord) (push_order h (quantity ord) l) = l"
    using hl by (simp add: drop_order_def push_order_def remove1_append)
  have u: "unlink (price ord) h (quantity ord) (enqueue cmp ord h m) =
      m1 @ (if orders l = [] then [] else [(price ord, l)]) @ m2"
    by (simp add: e unlink_append [OF k] r restore)
  from m show ?thesis
  proof
    assume m': "m = m1 @ (price ord, l) # m2"
    with ne have "orders l \<noteq> []" by auto
    with m' show ?thesis unfolding u by simp
  next
    assume "m = m1 @ m2 \<and> l = PriceLevelData_ctor (price ord) \<and> map_of m (price ord) = None"
    then have "m = m1 @ m2" "orders l = []" by (simp_all add: PriceLevelData_ctor_def)
    then show ?thesis unfolding u by simp
  qed
qed

lemma match_orders_silent:
  assumes ok: "book_ok s" and r: "match_orders s = Some s'" and same: "trade_log s' = trade_log s"
  shows "s' = s"
proof (cases "crossing s")
  case False
  with r match_orders_idle show ?thesis by simp
next
  case True
  from match_orders_counters [OF ok] r True obtain new where
    "emitted s s' new" "new \<noteq> []" by auto
  with same show ?thesis by (simp add: emitted_def)
qed

lemma levels_nonempty:
  "book_ok s \<Longrightarrow> \<forall>e \<in> set (bids s). orders (snd e) \<noteq> []"
  "book_ok s \<Longrightarrow> \<forall>e \<in> set (asks s). orders (snd e) \<noteq> []"
  by (auto simp: book_ok_def levels_ok_def level_ok_def)

lemma fresh_handle:
  "book_ok s \<Longrightarrow> new_handle s \<notin> set (handles (bids s))"
  "book_ok s \<Longrightarrow> new_handle s \<notin> set (handles (asks s))"
  by (auto simp: book_ok_def new_handle_def)

lemma cancel_inserted:
  assumes ok: "book_ok s"
  shows "fst (cancel_order (insert_order s ord) (order_id ord)) = True"
    and "bids (snd (cancel_order (insert_order s ord) (order_id ord))) = bids s"
    and "asks (snd (cancel_order (insert_order s ord) (order_id ord))) = asks s"
    and "total_orders_added (snd (cancel_order (insert_order s ord) (order_id ord))) =
         total_orders_added s + 1"
    and "total_orders_cancelled (snd (cancel_order (insert_order s ord) (order_id ord))) =
         total_orders_cancelled s + 1"
proof -
  let ?s0 = "insert_order s ord"
  note f = insert_order_fields [of s ord]
  have e: "order_lookup ?s0 (order_id ord) = Some (new_location s ord)"
    by (simp add: f)
  note c = cancel_order_fields [OF e]
  show "fst (cancel_order ?s0 (order_id ord)) = True" by (rule c)
  show "total_orders_added (snd (cancel_order ?s0 (order_id ord))) = total_orders_added s + 1"
    by (simp add: c)
  show "total_orders_cancelled (snd (cancel_order ?s0 (order_id ord))) = total_orders_cancelled s + 1"
    by (simp add: c)
  have q: "quantity (deref ?s0 (loc_order (new_location s ord))) = quantity ord"
    by (simp add: f new_location_def)
  show "bids (snd (cancel_order ?s0 (order_id ord))) = bids s"
    using unlink_enqueue [OF fresh_handle(1) [OF ok] levels_nonempty(1) [OF ok], of ord "(>)"]
    by (simp add: c remove_order_from_book_sides q)
      (simp add: f new_location_def map_of_enqueue)
  show "asks (snd (cancel_order ?s0 (order_id ord))) = asks s"
    using unlink_enqueue [OF fresh_handle(2) [OF ok] levels_nonempty(2) [OF ok], of ord "(<)"]
    by (simp add: c remove_order_from_book_sides q)
      (simp add: f new_location_def map_of_enqueue)
qed

lemma ctor_fields [simp]:
  "bids OrderBook_ctor = []" "asks OrderBook_ctor = []" "order_lookup OrderBook_ctor = Map.empty"
  "total_orders_added OrderBook_ctor = 0" "total_orders_cancelled OrderBook_ctor = 0"
  "total_orders_matched OrderBook_ctor = 0" "trade_log OrderBook_ctor = []"
  "allocated (order_pool OrderBook_ctor) = 0"
  by (simp_all add: OrderBook_ctor_def MemoryPool_ctor_def)

lemma add_order_idle:
  "\<not> crossing (insert_order s ord) \<Longrightarrow> add_order s ord = Some (insert_order s ord)"
  by (simp add: add_order_def match_orders_idle)


lemma amend_same_price:
  assumes ok: "book_ok s" and un: "uncrossed s" and e: "order_lookup s i = Some e"
  shows "amend_order s i (price (deref s (loc_order e))) q = Some (True, requantified s e q) \<or>
     q = quantity (deref s (loc_order e)) \<and>
     amend_order s i (price (deref s (loc_order e))) q = Some (True, s)"
proof (cases "q = quantity (deref s (loc_order e))")
  case True
  with e show ?thesis by (simp add: amend_order_cases)
next
  case False
  from match_orders_idle [OF uncrossed_not_crossing [OF requantified_uncrossed [OF un, of e q]]]
    e False
  show ?thesis by (simp add: amend_order_cases)
qed

subsection \<open>The trades of one aggressor\<close>

lemma after_fill_keys:
  assumes "m \<noteq> []" "orders (snd (hd m)) \<noteq> []"
  shows "fst ` set (after_fill filled q m) \<subseteq> fst ` set m"
proof -
  from assms obtain k l rest x xt where m: "m = (k, l) # rest" and l: "orders l = x # xt"
    by (rule side_headE)
  show ?thesis
    by (auto simp: m after_fill_Cons [OF l])
qed

lemma match_step_keeps_ids:
  assumes "sell_head s \<noteq> buy_head s"
  shows "order_id (deref (match_step s) p) = order_id (deref s p)"
    and "price (deref (match_step s) p) = price (deref s p)"
  by (simp_all add: match_step_deref [OF assms])

lemma emitted_match_step:
  "emitted s (match_step s)
     [\<lparr>buy_order_id = order_id (deref s (buy_head s)),
       sell_order_id = order_id (deref s (sell_head s)),
       trade_qty = fill_qty s,
       trade_price = price (deref s (sell_head s))\<rparr>]"
  by (simp add: emitted_def match_step_trade_log)

lemma match_orders_buy_aggressor:
  assumes "book_ok s"
  shows "\<exists>s'. match_orders s = Some s' \<and>
     (\<forall>h. buy_aggressor s h \<longrightarrow>
        (\<exists>new n. emitted s s' new \<and>
           map parties new =
             map (\<lambda>p. (order_id (deref s h), order_id (deref s p), price (deref s p)))
               (take n (handles (asks s)))))"
proof (rule match_orders_rule [OF assms])
  fix s assume "\<not> crossing s"
  show "\<forall>h. buy_aggressor s h \<longrightarrow>
        (\<exists>new n. emitted s s new \<and>
           map parties new =
             map (\<lambda>p. (order_id (deref s h), order_id (deref s p), price (deref s p)))
               (take n (handles (asks s))))"
    using emitted_refl [of s] by (intro allI impI exI [of _ "[]"] exI [of _ 0]) simp
next
  fix s s'
  assume ok: "book_ok s" and cr: "crossing s"
    and r: "match_orders (match_step s) = Some s'"
    and IH: "\<forall>h. buy_aggressor (match_step s) h \<longrightarrow>
        (\<exists>new n. emitted (match_step s) s' new \<and>
           map parties new =
             map (\<lambda>p. (order_id (deref (match_step s) h), order_id (deref (match_step s) p),
                        price (deref (match_step s) p)))
               (take n (handles (asks (match_step s)))))"
  let ?u = "match_step s"
  note ne = heads_differ [OF ok cr]
  note ids = match_step_keeps_ids [OF ne]
  note sides = match_step_sides [OF ne]
  from cr have nb: "bids s \<noteq> []" "orders (snd (hd (bids s))) \<noteq> []"
    and na: "asks s \<noteq> []" "orders (snd (hd (asks s))) \<noteq> []"
    by (simp_all add: crossing_def)
  show "\<forall>h. buy_aggressor s h \<longrightarrow>
        (\<exists>new n. emitted s s' new \<and>
           map parties new =
             map (\<lambda>p. (order_id (deref s h), order_id (deref s p), price (deref s p)))
               (take n (handles (asks s))))"
  proof (intro allI impI)
    fix h assume "buy_aggressor s h"
    then obtain k l rest where b: "bids s = (k, l) # rest" "orders l = [h]"
      and low: "\<forall>b \<in> set rest. \<forall>a \<in> set (asks s). fst b < fst a"
      unfolding buy_aggressor_def by blast
    from b have bh: "buy_head s = h" by (simp add: buy_head_def)
    from na have hs: "handles (asks s) = sell_head s # tl (handles (asks s))"
      by (cases "asks s"; cases "orders (snd (hd (asks s)))") (auto simp: sell_head_def)
    let ?t = "\<lparr>buy_order_id = order_id (deref s (buy_head s)),
       sell_order_id = order_id (deref s (sell_head s)),
       trade_qty = fill_qty s,
       trade_price = price (deref s (sell_head s))\<rparr>"
    let ?f = "\<lambda>p. (order_id (deref s h), order_id (deref s p), price (deref s p))"
    have t: "parties ?t = ?f (sell_head s)"
      by (simp add: parties_def bh)
    have low': "\<forall>b \<in> set rest. \<forall>a \<in> set (asks ?u). fst b < fst a"
      using low after_fill_keys [OF na, of "sell_filled s" "fill_qty s"]
      unfolding sides by (metis (no_types, lifting) imageE image_eqI subsetD)
    show "\<exists>new n. emitted s s' new \<and> map parties new = map ?f (take n (handles (asks s)))"
    proof (cases "buy_filled s")
      case True
      then have bu: "bids ?u = rest"
        by (simp add: sides b after_fill_Cons [OF b(2)])
      have "\<not> crossing ?u"
      proof (cases "rest = [] \<or> asks ?u = []")
        case True
        with bu show ?thesis by (auto simp: crossing_def)
      next
        case False
        then have "hd rest \<in> set rest" "hd (asks ?u) \<in> set (asks ?u)" by simp_all
        with low' have "fst (hd rest) < fst (hd (asks ?u))" by blast
        with bu show ?thesis by (simp add: crossing_def)
      qed
      from match_orders_idle [OF this] r have "s' = ?u" by simp
      with emitted_match_step [of s] have "emitted s s' [?t]" by simp
      moreover have "map parties [?t] = map ?f (take 1 (handles (asks s)))"
        by (subst hs) (simp add: t)
      ultimately show ?thesis by blast
    next
      case False
      then have bu: "bids ?u = (k, l\<lparr>orders := [h], total_quantity := total_quantity l - fill_qty s\<rparr>) # rest"
        by (simp add: sides b after_fill_Cons [OF b(2)])
      with low' have "buy_aggressor ?u h"
        unfolding buy_aggressor_def by simp
      with IH obtain new n where new: "emitted ?u s' new"
        "map parties new =
           map (\<lambda>p. (order_id (deref ?u h), order_id (deref ?u p), price (deref ?u p)))
             (take n (handles (asks ?u)))"
        by blast
      from False one_side_filled [of s] have "sell_filled s" by simp
      then have "handles (asks ?u) = tl (handles (asks s))"
        by (simp add: sides handles_after_fill [OF na])
      with new(2) have "map parties new = map ?f (take n (tl (handles (asks s))))"
        by (simp add: ids)
      then have "map parties (?t # new) = map ?f (take (Suc n) (handles (asks s)))"
        by (subst hs) (simp add: t)
      with emitted_trans [OF emitted_match_step [of s] new(1)] show ?thesis
        by (intro exI [of _ "?t # new"] exI [of _ "Suc n"]) simp
    qed
  qed
qed

lemma match_orders_sell_aggressor:
  assumes "book_ok s"
  shows "\<exists>s'. match_orders s = Some s' \<and>
     (\<forall>h. sell_aggressor s h \<longrightarrow>
        (\<exists>new n. emitted s s' new \<and>
           map parties new =
             map (\<lambda>p. (order_id (deref s p), order_id (deref s h), price (deref s h)))
               (take n (handles (bids s)))))"
proof (rule match_orders_rule [OF assms])
  fix s assume "\<not> crossing s"
  show "\<forall>h. sell_aggressor s h \<longrightarrow>
        (\<exists>new n. emitted s s new \<and>
           map parties new =
             map (\<lambda>p. (order_id (deref s p), order_id (deref s h), price (deref s h)))
               (take n (handles (bids s))))"
    using emitted_refl [of s] by (intro allI impI exI [of _ "[]"] exI [of _ 0]) simp
next
  fix s s'
  assume ok: "book_ok s" and cr: "crossing s"
    and r: "match_orders (match_step s) = Some s'"
    and IH: "\<forall>h. sell_aggressor (match_step s) h \<longrightarrow>
        (\<exists>new n. emitted (match_step s) s' new \<and>
           map parties new =
             map (\<lambda>p. (order_id (deref (match_step s) p), order_id (deref (match_step s) h),
                        price (deref (match_step s) h)))
               (take n (handles (bids (match_step s)))))"
  let ?u = "match_step s"
  note ne = heads_differ [OF ok cr]
  note ids = match_step_keeps_ids [OF ne]
  note sides = match_step_sides [OF ne]
  from cr have nb: "bids s \<noteq> []" "orders (snd (hd (bids s))) \<noteq> []"
    and na: "asks s \<noteq> []" "orders (snd (hd (asks s))) \<noteq> []"
    by (simp_all add: crossing_def)
  show "\<forall>h. sell_aggressor s h \<longrightarrow>
        (\<exists>new n. emitted s s' new \<and>
           map parties new =
             map (\<lambda>p. (order_id (deref s p), order_id (deref s h), price (deref s h)))
               (take n (handles (bids s))))"
  proof (intro allI impI)
    fix h assume "sell_aggressor s h"
    then obtain k l rest where a: "asks s = (k, l) # rest" "orders l = [h]"
      and low: "\<forall>a \<in> set rest. \<forall>b \<in> set (bids s). fst b < fst a"
      unfolding sell_aggressor_def by blast
    from a have ah: "sell_head s = h" by (simp add: sell_head_def)
    from nb have hs: "handles (bids s) = buy_head s # tl (handles (bids s))"
      by (cases "bids s"; cases "orders (snd (hd (bids s)))") (auto simp: buy_head_def)
    let ?t = "\<lparr>buy_order_id = order_id (deref s (buy_head s)),
       sell_order_id = order_id (deref s (sell_head s)),
       trade_qty = fill_qty s,
       trade_price = price (deref s (sell_head s))\<rparr>"
    let ?f = "\<lambda>p. (order_id (deref s p), order_id (deref s h), price (deref s h))"
    have t: "parties ?t = ?f (buy_head s)"
      by (simp add: parties_def ah)
    have low': "\<forall>a \<in> set rest. \<forall>b \<in> set (bids ?u). fst b < fst a"
      using low after_fill_keys [OF nb, of "buy_filled s" "fill_qty s"]
      unfolding sides by (metis (no_types, lifting) imageE image_eqI subsetD)
    show "\<exists>new n. emitted s s' new \<and> map parties new = map ?f (take n (handles (bids s)))"
    proof (cases "sell_filled s")
      case True
      then have au: "asks ?u = rest"
        by (simp add: sides a after_fill_Cons [OF a(2)])
      have "\<not> crossing ?u"
      proof (cases "rest = [] \<or> bids ?u = []")
        case True
        with au show ?thesis by (auto simp: crossing_def)
      next
        case False
        then have "hd rest \<in> set rest" "hd (bids ?u) \<in> set (bids ?u)" by simp_all
        with low' have "fst (hd (bids ?u)) < fst (hd rest)" by blast
        with au show ?thesis by (simp add: crossing_def)
      qed
      from match_orders_idle [OF this] r have "s' = ?u" by simp
      with emitted_match_step [of s] have "emitted s s' [?t]" by simp
      moreover have "map parties [?t] = map ?f (take 1 (handles (bids s)))"
        by (subst hs) (simp add: t)
      ultimately show ?thesis by blast
    next
      case False
      then have au: "asks ?u = (k, l\<lparr>orders := [h], total_quantity := total_quantity l - fill_qty s\<rparr>) # rest"
        by (simp add: sides a after_fill_Cons [OF a(2)])
      with low' have "sell_aggressor ?u h"
        unfolding sell_aggressor_def by simp
      with IH obtain new n where new: "emitted ?u s' new"
        "map parties new =
           map (\<lambda>p. (order_id (deref ?u p), order_id (deref ?u h), price (deref ?u h)))
             (take n (handles (bids ?u)))"
        by blast
      from False one_side_filled [of s] have "buy_filled s" by simp
      then have "handles (bids ?u) = tl (handles (bids s))"
        by (simp add: sides handles_after_fill [OF nb])
      with new(2) have "map parties new = map ?f (take n (tl (handles (bids s))))"
        by (simp add: ids)
      then have "map parties (?t # new) = map ?f (take (Suc n) (handles (bids s)))"
        by (subst hs) (simp add: t)
      with emitted_trans [OF emitted_match_step [of s] new(1)] show ?thesis
        by (intro exI [of _ "?t # new"] exI [of _ "Suc n"]) simp
    qed
  qed
qed

text \<open>A crossing order is alone in a new best level of its side.\<close>

lemma enqueue_best:
  assumes low: "\<forall>e \<in> set m. cmp bound (fst e)" and top: "\<not> cmp bound (fst (hd (enqueue cmp ord h m)))"
    and ne: "\<forall>e \<in> set m. orders (snd e) \<noteq> []"
  shows "enqueue cmp ord h m =
     (price ord, push_order h (quantity ord) (PriceLevelData_ctor (price ord))) # m"
proof -
  from enqueue_split [of cmp ord h m] obtain m1 l m2 where
    e: "enqueue cmp ord h m = m1 @ (price ord, push_order h (quantity ord) l) # m2"
    and m: "m = m1 @ (price ord, l) # m2 \<or>
            m = m1 @ m2 \<and> l = PriceLevelData_ctor (price ord) \<and> map_of m (price ord) = None"
    by blast
  have m1: "m1 = []"
  proof (rule ccontr)
    assume "m1 \<noteq> []"
    then have "hd (enqueue cmp ord h m) = hd m1" "hd m1 \<in> set m"
      using e m by auto
    with low top show False by auto
  qed
  from m show ?thesis
  proof
    assume "m = m1 @ (price ord, l) # m2"
    with m1 low have "cmp bound (price ord)" by simp
    with top e m1 show ?thesis by simp
  next
    assume "m = m1 @ m2 \<and> l = PriceLevelData_ctor (price ord) \<and> map_of m (price ord) = None"
    with e m1 show ?thesis by simp
  qed
qed

lemma add_order_trades:
  assumes ok: "book_ok s" and un: "uncrossed s"
  shows "\<exists>s' new n. add_order s ord = Some s' \<and> emitted s s' new \<and>
     map parties new =
       (if is_buy ord
        then map (\<lambda>p. (order_id ord, order_id (deref s p), price (deref s p)))
               (take n (handles (asks s)))
        else map (\<lambda>p. (order_id (deref s p), order_id ord, price ord))
               (take n (handles (bids s))))"
proof -
  let ?s0 = "insert_order s ord"
  let ?h = "new_handle s"
  note f = insert_order_fields [of s ord]
  note ok0 = insert_order_book_ok [OF ok, of ord]
  have e0: "emitted s ?s0 []" by (simp add: emitted_def)
  have old: "deref ?s0 p = deref s p" if "p \<in> set (handles (bids s)) \<or> p \<in> set (handles (asks s))" for p
    using that fresh_handle [OF ok] by (auto simp: f)
  have new: "deref ?s0 ?h = ord" by (simp add: f)
  show ?thesis
  proof (cases "crossing ?s0")
    case False
    from match_orders_idle [OF this] e0 show ?thesis
      by (intro exI [of _ ?s0] exI [of _ "[]"] exI [of _ 0]) (simp add: add_order_def)
  next
    case True
    show ?thesis
    proof (cases "is_buy ord")
      case buy: True
      from True buy have na: "asks s \<noteq> []"
        and top: "\<not> fst (hd (enqueue (>) ord ?h (bids s))) < fst (hd (asks s))"
        by (simp_all add: crossing_def f)
      have low: "\<forall>e \<in> set (bids s). fst (hd (asks s)) > fst e"
        using bids_below_asks [OF ok un] na by simp
      from enqueue_best [of "bids s" "(>)" "fst (hd (asks s))", OF low _ levels_nonempty(1) [OF ok]] top
      have b0: "bids ?s0 =
          (price ord, push_order ?h (quantity ord) (PriceLevelData_ctor (price ord))) # bids s"
        by (simp add: f buy)
      have "buy_aggressor ?s0 ?h"
        unfolding buy_aggressor_def b0
        using bids_below_asks [OF ok un]
        by (simp add: f buy push_order_def PriceLevelData_ctor_def)
      with match_orders_buy_aggressor [OF ok0] obtain s' new n where
        s': "match_orders ?s0 = Some s'" "emitted ?s0 s' new"
        "map parties new =
           map (\<lambda>p. (order_id (deref ?s0 ?h), order_id (deref ?s0 p), price (deref ?s0 p)))
             (take n (handles (asks ?s0)))"
        by blast
      have "map (\<lambda>p. (order_id (deref ?s0 ?h), order_id (deref ?s0 p), price (deref ?s0 p)))
             (take n (handles (asks ?s0))) =
          map (\<lambda>p. (order_id ord, order_id (deref s p), price (deref s p)))
             (take n (handles (asks s)))"
      proof -
        have a0: "asks ?s0 = asks s" by (simp add: f buy)
        show ?thesis
          unfolding a0
        proof (rule map_cong [OF refl])
          fix p assume "p \<in> set (take n (handles (asks s)))"
          then have "p \<in> set (handles (asks s))" by (rule in_set_takeD)
          with old [of p] new
          show "(order_id (deref ?s0 ?h), order_id (deref ?s0 p), price (deref ?s0 p)) =
              (order_id ord, order_id (deref s p), price (deref s p))"
            by simp
        qed
      qed
      with s' emitted_trans [OF e0 s'(2)] buy show ?thesis
        by (intro exI [of _ s'] exI [of _ new] exI [of _ n]) (simp add: add_order_def)
    next
      case sell: False
      from True sell have nb: "bids s \<noteq> []"
        and top: "\<not> fst (hd (bids s)) < fst (hd (enqueue (<) ord ?h (asks s)))"
        by (simp_all add: crossing_def f)
      have low: "\<forall>e \<in> set (asks s). fst (hd (bids s)) < fst e"
        using bids_below_asks [OF ok un] nb by simp
      from enqueue_best [of "asks s" "(<)" "fst (hd (bids s))", OF low _ levels_nonempty(2) [OF ok]] top
      have a0: "asks ?s0 =
          (price ord, push_order ?h (quantity ord) (PriceLevelData_ctor (price ord))) # asks s"
        by (simp add: f sell)
      have "sell_aggressor ?s0 ?h"
        unfolding sell_aggressor_def a0
        using bids_below_asks [OF ok un]
        by (simp add: f sell push_order_def PriceLevelData_ctor_def)
      with match_orders_sell_aggressor [OF ok0] obtain s' new n where
        s': "match_orders ?s0 = Some s'" "emitted ?s0 s' new"
        "map parties new =
           map (\<lambda>p. (order_id (deref ?s0 p), order_id (deref ?s0 ?h), price (deref ?s0 ?h)))
             (take n (handles (bids ?s0)))"
        by blast
      have "map (\<lambda>p. (order_id (deref ?s0 p), order_id (deref ?s0 ?h), price (deref ?s0 ?h)))
             (take n (handles (bids ?s0))) =
          map (\<lambda>p. (order_id (deref s p), order_id ord, price ord))
             (take n (handles (bids s)))"
      proof -
        have b0: "bids ?s0 = bids s" by (simp add: f sell)
        show ?thesis
          unfolding b0
        proof (rule map_cong [OF refl])
          fix p assume "p \<in> set (take n (handles (bids s)))"
          then have "p \<in> set (handles (bids s))" by (rule in_set_takeD)
          with old [of p] new
          show "(order_id (deref ?s0 p), order_id (deref ?s0 ?h), price (deref ?s0 ?h)) =
              (order_id (deref s p), order_id ord, price ord)"
            by simp
        qed
      qed
      with s' emitted_trans [OF e0 s'(2)] sell show ?thesis
        by (intro exI [of _ s'] exI [of _ new] exI [of _ n]) (simp add: add_order_def)
    qed
  qed
qed

lemma take_length_map:
  assumes "map g xs = map f (take n ys)"
  shows "map g xs = map f (take (length xs) ys)"
proof -
  from assms have "length xs = length (take n ys)" by (metis length_map)
  with assms show ?thesis by (simp add: min_def split: if_splits)
qed

subsection \<open>Queues are in arrival order\<close>

lemma fifo_side_simps [simp]:
  "fifo_side []"
  "fifo_side (e # m) \<longleftrightarrow> sorted_wrt (<) (orders (snd e)) \<and> fifo_side m"
  "fifo_side (m1 @ m2) \<longleftrightarrow> fifo_side m1 \<and> fifo_side m2"
  by (auto simp: fifo_side_def)

lemma sorted_wrt_remove1_less:
  "sorted_wrt (<) xs \<Longrightarrow> sorted_wrt (<) (remove1 (x::nat) xs)"
proof (induction xs)
  case Nil
  then show ?case by simp
next
  case (Cons y ys)
  then show ?case
    by (auto dest: set_remove1_subset [THEN subsetD])
qed

lemma fifo_side_after_fill:
  assumes "fifo_side m" "m \<noteq> []" "orders (snd (hd m)) \<noteq> []"
  shows "fifo_side (after_fill filled q m)"
proof -
  from assms(2,3) obtain k l rest x xt where m: "m = (k, l) # rest" and l: "orders l = x # xt"
    by (rule side_headE)
  from assms(1) show ?thesis
    by (simp add: m l after_fill_Cons [OF l])
qed

lemma match_step_fifo_ok:
  assumes "book_ok s" "crossing s" "fifo_ok s"
  shows "fifo_ok (match_step s)"
proof -
  from assms(2) have nb: "bids s \<noteq> []" "orders (snd (hd (bids s))) \<noteq> []"
    and na: "asks s \<noteq> []" "orders (snd (hd (asks s))) \<noteq> []"
    by (simp_all add: crossing_def)
  from assms(3) show ?thesis
    by (simp add: fifo_ok_def match_step_sides [OF heads_differ [OF assms(1,2)]]
        fifo_side_after_fill [OF _ nb] fifo_side_after_fill [OF _ na])
qed

lemma match_orders_fifo_ok:
  assumes "book_ok s"
  shows "\<exists>s'. match_orders s = Some s' \<and> (fifo_ok s \<longrightarrow> fifo_ok s')"
proof (rule match_orders_rule [OF assms])
  fix s show "fifo_ok s \<longrightarrow> fifo_ok s" by simp
next
  fix s s'
  assume "book_ok s" "crossing s" "fifo_ok (match_step s) \<longrightarrow> fifo_ok s'"
  then show "fifo_ok s \<longrightarrow> fifo_ok s'"
    using match_step_fifo_ok by blast
qed

lemma fifo_side_enqueue:
  assumes "fifo_side m" "\<forall>p \<in> set (handles m). p < h"
  shows "fifo_side (enqueue cmp ord h m)"
proof -
  from enqueue_split [of cmp ord h m] obtain m1 l m2 where
    e: "enqueue cmp ord h m = m1 @ (price ord, push_order h (quantity ord) l) # m2"
    and m: "m = m1 @ (price ord, l) # m2 \<or>
            m = m1 @ m2 \<and> l = PriceLevelData_ctor (price ord) \<and> map_of m (price ord) = None"
    by blast
  from m assms have "fifo_side m1" "fifo_side m2" "sorted_wrt (<) (orders l)"
    "\<forall>p \<in> set (orders l). p < h"
    by (auto simp: PriceLevelData_ctor_def)
  then show ?thesis
    by (simp add: e push_order_def sorted_wrt_append)
qed

lemma insert_order_fifo_ok:
  assumes "book_ok s" "fifo_ok s"
  shows "fifo_ok (insert_order s ord)"
proof -
  from assms(1) have "\<forall>p \<in> set (handles (bids s)). p < new_handle s"
    "\<forall>p \<in> set (handles (asks s)). p < new_handle s"
    by (auto simp: book_ok_def new_handle_def)
  with assms(2) show ?thesis
    by (simp add: fifo_ok_def insert_order_fields fifo_side_enqueue)
qed

lemma add_order_fifo_ok:
  assumes "book_ok s" "fifo_ok s" "add_order s ord = Some s'"
  shows "fifo_ok s'"
  using match_orders_fifo_ok [OF insert_order_book_ok [OF assms(1), of ord]]
    insert_order_fifo_ok [OF assms(1,2), of ord] assms(3)
  by (auto simp: add_order_def)

lemma cancel_order_fifo_ok:
  assumes ok: "book_ok s" and fifo: "fifo_ok s"
  shows "fifo_ok (snd (cancel_order s i))"
proof (cases "order_lookup s i")
  case None
  with fifo show ?thesis by (simp add: cancel_order_absent)
next
  case (Some e)
  from ok Some obtain l m1 m2 where
    m: "side_of s e = m1 @ (loc_price e, l) # m2"
    and b: "bids (snd (cancel_order s i)) =
       (if is_bid e
        then m1 @ (if remove1 (loc_order e) (orders l) = [] then []
                   else [(loc_price e, drop_order (loc_order e) (quantity (deref s (loc_order e))) l)]) @ m2
        else bids s)"
    and a: "asks (snd (cancel_order s i)) =
       (if is_bid e then asks s
        else m1 @ (if remove1 (loc_order e) (orders l) = [] then []
                   else [(loc_price e, drop_order (loc_order e) (quantity (deref s (loc_order e))) l)]) @ m2)"
    by (rule cancel_order_shape)
  from fifo m have "fifo_side m1" "fifo_side m2" "sorted_wrt (<) (orders l)"
    by (cases "is_bid e"; simp add: fifo_ok_def side_of_def)+
  with fifo show ?thesis
    by (simp add: fifo_ok_def a b drop_order_def sorted_wrt_remove1_less)
qed

lemma fifo_side_set_total:
  "fifo_side (map_modify k (set_total old new) m) = fifo_side m"
proof (induction m)
  case Nil
  show ?case by simp
next
  case (Cons e m)
  then show ?case
    by (cases e) (simp add: set_total_def)
qed

lemma requantified_fifo_ok: "fifo_ok s \<Longrightarrow> fifo_ok (requantified s e q)"
  by (simp add: fifo_ok_def requantified_fields fifo_side_set_total)

lemma amend_order_fifo_ok:
  assumes ok: "book_ok s" and un: "uncrossed s" and fifo: "fifo_ok s"
    and r: "amend_order s i p q = Some (b, s')"
  shows "fifo_ok s'"
proof (cases "order_lookup s i")
  case None
  with r fifo show ?thesis by (simp add: amend_order_cases)
next
  case (Some e)
  show ?thesis
  proof (cases "p = price (deref s (loc_order e))")
    case False
    with r Some have "add_order (snd (cancel_order s i))
        ((deref s (loc_order e))\<lparr>price := p, quantity := q\<rparr>) = Some s'"
      by (auto simp: amend_order_cases)
    from add_order_fifo_ok [OF cancel_order_book_ok [OF ok] cancel_order_fifo_ok [OF ok fifo] this]
    show ?thesis .
  next
    case True
    from amend_same_price [OF ok un Some, of q] r True fifo show ?thesis
      by (auto simp: requantified_fifo_ok)
  qed
qed

lemma run_fifo_ok:
  "book_ok s \<Longrightarrow> uncrossed s \<Longrightarrow> fifo_ok s \<Longrightarrow> run cs s = Some s' \<Longrightarrow> fifo_ok s'"
proof (induction cs arbitrary: s)
  case Nil
  then show ?case by simp
next
  case (Cons c cs)
  from exec_book_ok [OF Cons.prems(1,2), of c] obtain s1 where
    s1: "exec c s = Some s1" "book_ok s1" "uncrossed s1" by blast
  have "fifo_ok s1"
  proof (cases c)
    case (AddOrder ord)
    with s1(1) add_order_fifo_ok [OF Cons.prems(1,3)] show ?thesis by simp
  next
    case (CancelOrder i)
    with s1(1) cancel_order_fifo_ok [OF Cons.prems(1,3), of i] show ?thesis by auto
  next
    case (AmendOrder i p q)
    with s1(1) amend_order_fifo_ok [OF Cons.prems(1,2,3)] show ?thesis by auto
  next
    case Clear
    with s1(1) show ?thesis by (auto simp: fifo_ok_def)
  qed
  from Cons.IH [OF s1(2,3) this] Cons.prems(4) s1(1) show ?case by simp
qed

lemma reachable_fifo_ok:
  assumes "run cs OrderBook_ctor = Some s"
  shows "fifo_ok s"
  by (rule run_fifo_ok [OF book_ok_ctor uncrossed_ctor _ assms]) (simp add: fifo_ok_def)

lemmas eval_defs =
  OrderBook_ctor_def MemoryPool_ctor_def allocate_def deallocate_def
  add_order_def insert_order_def enqueue_def PriceLevelData_ctor_def match_orders.simps crossing_def
  match_step_def execute_trade_def update_quantities_def set_quantity_def deref_def sub_head_total_def
  pop_filled_def remove_filled_buy_def remove_filled_sell_def cancel_order_def
  remove_order_from_book_def unlink_def amend_order_def retotal_def clear_def Let_def

subsection \<open>The book is never left crossed\<close>

text \<open>
  C3. After every sequence of public operations on a new book, the operations have all
  returned and, whenever both sides are non-empty, the best bid price is strictly below the
  best ask price; indeed every resting bid price is below every resting ask price.
\<close>

theorem book_never_crossed:
  "\<exists>s. run cs OrderBook_ctor = Some s \<and>
     (\<forall>bp bq ap aq. get_best_bid s = Some (bp, bq) \<longrightarrow> get_best_ask s = Some (ap, aq) \<longrightarrow> bp < ap) \<and>
     (\<forall>b \<in> set (bids s). \<forall>a \<in> set (asks s). fst b < fst a)"
proof -
  from run_ctor_book_ok [of cs] obtain s where
    s: "run cs OrderBook_ctor = Some s" "book_ok s" "uncrossed s" by blast
  have "bp < ap" if "get_best_bid s = Some (bp, bq)" "get_best_ask s = Some (ap, aq)" for bp bq ap aq
  proof -
    from that(1) have "bids s \<noteq> []" "fst (hd (bids s)) = bp"
      by (auto simp: get_best_bid_def split: list.splits)
    moreover from that(2) have "asks s \<noteq> []" "fst (hd (asks s)) = ap"
      by (auto simp: get_best_ask_def split: list.splits)
    ultimately show ?thesis using s(3) by (simp add: uncrossed_def)
  qed
  moreover have "\<forall>b \<in> set (bids s). \<forall>a \<in> set (asks s). fst b < fst a"
    using bids_below_asks [OF s(2,3)] by blast
  ultimately show ?thesis using s(1) by blast
qed

theorem book_never_crossed_witness:
  "\<exists>s. run [AddOrder \<lparr>order_id = 1, is_buy = True, price = 100, quantity = 5, timestamp_ns = 0\<rparr>,
            AddOrder \<lparr>order_id = 2, is_buy = False, price = 101, quantity = 7, timestamp_ns = 0\<rparr>]
         OrderBook_ctor = Some s \<and>
       get_best_bid s = Some (100, 5) \<and> get_best_ask s = Some (101, 7) \<and> (100::rat) < 101"
proof -
  let ?cs = "[AddOrder \<lparr>order_id = 1, is_buy = True, price = 100, quantity = 5, timestamp_ns = 0\<rparr>,
              AddOrder \<lparr>order_id = 2, is_buy = False, price = 101, quantity = 7, timestamp_ns = 0\<rparr>]"
  from book_never_crossed [of ?cs] obtain s where
    s: "run ?cs OrderBook_ctor = Some s"
    and lt: "\<And>bp bq ap aq. get_best_bid s = Some (bp, bq) \<Longrightarrow> get_best_ask s = Some (ap, aq) \<Longrightarrow> bp < ap"
    by blast
  have "map_option get_best_bid (run ?cs OrderBook_ctor) = Some (Some (100, 5))"
    by (simp add: eval_defs get_best_bid_def)
  with s have b: "get_best_bid s = Some (100, 5)" by simp
  have "map_option get_best_ask (run ?cs OrderBook_ctor) = Some (Some (101, 7))"
    by (simp add: eval_defs get_best_ask_def)
  with s have a: "get_best_ask s = Some (101, 7)" by simp
  from lt [OF b a] s a b show ?thesis by blast
qed

subsection \<open>Level totals\<close>

text \<open>
  C4, as the code has it. After every sequence of public operations on a new book (so in
  particular after every sequence that adds positive quantities only, never reuses a live id
  and never amends to quantity zero), every price level present in a side index has a
  non-empty order queue, so a level whose queue became empty has been erased, and its
  \<open>total_quantity\<close> is the \<open>uint64_t\<close> sum of the remaining quantities of the orders in
  its queue, that is their sum modulo \<open>2^64\<close>. It is the sum of the quantities as numbers
  only when that sum is below \<open>2^64\<close>.
\<close>

theorem level_totals:
  "\<exists>s. run cs OrderBook_ctor = Some s \<and>
     (\<forall>e \<in> set (bids s) \<union> set (asks s).
        orders (snd e) \<noteq> [] \<and>
        total_quantity (snd e) = (\<Sum>p\<leftarrow>orders (snd e). quantity (deref s p)) \<and>
        ((\<Sum>p\<leftarrow>orders (snd e). unat (quantity (deref s p))) < 2 ^ 64 \<longrightarrow>
         unat (total_quantity (snd e)) = (\<Sum>p\<leftarrow>orders (snd e). unat (quantity (deref s p)))))"
proof -
  from run_ctor_book_ok [of cs] obtain s where
    s: "run cs OrderBook_ctor = Some s" "book_ok s" by blast
  have "orders (snd e) \<noteq> [] \<and>
        total_quantity (snd e) = (\<Sum>p\<leftarrow>orders (snd e). quantity (deref s p)) \<and>
        ((\<Sum>p\<leftarrow>orders (snd e). unat (quantity (deref s p))) < 2 ^ 64 \<longrightarrow>
         unat (total_quantity (snd e)) = (\<Sum>p\<leftarrow>orders (snd e). unat (quantity (deref s p))))"
    if "e \<in> set (bids s) \<union> set (asks s)" for e
  proof -
    from s(2) that have l: "level_ok s (snd e)"
      by (auto simp: book_ok_def levels_ok_def)
    then have "unat (total_quantity (snd e)) = (\<Sum>p\<leftarrow>orders (snd e). unat (quantity (deref s p)))"
      if "(\<Sum>p\<leftarrow>orders (snd e). unat (quantity (deref s p))) < 2 ^ 64"
      using unat_sum_list_u64 [OF that] by (simp add: level_ok_def)
    with l show ?thesis by (simp add: level_ok_def)
  qed
  with s(1) show ?thesis by blast
qed

theorem level_totals_witness:
  "\<exists>s. run [AddOrder \<lparr>order_id = 1, is_buy = True, price = 100, quantity = 5, timestamp_ns = 0\<rparr>,
            AddOrder \<lparr>order_id = 2, is_buy = True, price = 100, quantity = 7, timestamp_ns = 0\<rparr>]
         OrderBook_ctor = Some s \<and>
       bids s = [(100, \<lparr>pld_price = 100, orders = [0, 1], total_quantity = 12\<rparr>)] \<and>
       map (\<lambda>p. quantity (deref s p)) [0, 1] = [5, 7] \<and>
       (\<Sum>p\<leftarrow>[0, 1]. unat (quantity (deref s p))) = 12"
proof -
  let ?cs = "[AddOrder \<lparr>order_id = 1, is_buy = True, price = 100, quantity = 5, timestamp_ns = 0\<rparr>,
              AddOrder \<lparr>order_id = 2, is_buy = True, price = 100, quantity = 7, timestamp_ns = 0\<rparr>]"
  let ?l = "\<lparr>pld_price = 100, orders = [0, 1], total_quantity = 12\<rparr>"
  from level_totals [of ?cs] obtain s where
    s: "run ?cs OrderBook_ctor = Some s"
    and lv: "\<And>e. e \<in> set (bids s) \<union> set (asks s) \<Longrightarrow>
        ((\<Sum>p\<leftarrow>orders (snd e). unat (quantity (deref s p))) < 2 ^ 64 \<longrightarrow>
         unat (total_quantity (snd e)) = (\<Sum>p\<leftarrow>orders (snd e). unat (quantity (deref s p))))"
    by blast
  have "map_option bids (run ?cs OrderBook_ctor) = Some [(100, ?l)]"
    by (simp add: eval_defs)
  with s have b: "bids s = [(100, ?l)]" by simp
  have "map_option (\<lambda>s. map (\<lambda>p. quantity (deref s p)) [0, 1]) (run ?cs OrderBook_ctor) = Some [5, 7]"
    by (simp add: eval_defs)
  with s have q: "map (\<lambda>p. quantity (deref s p)) [0, 1] = [5, 7]" by simp
  then have small: "(\<Sum>p\<leftarrow>orders (snd (100::rat, ?l)). unat (quantity (deref s p))) < 2 ^ 64"
    by simp
  from lv [of "(100, ?l)"] b small
  have "unat (total_quantity ?l) = (\<Sum>p\<leftarrow>[0, 1]. unat (quantity (deref s p)))" by simp
  with s b q show ?thesis by simp
qed

subsection \<open>Termination of the crossing loop\<close>

text \<open>
  C8. On every well-formed book, whatever the quantities of its orders (so in particular
  when they are all positive), the crossing loop exits: it makes \<open>n\<close> passes, an exit
  condition holds after them, and \<open>n\<close> is at most the number of orders queued in the book,
  because every pass removes at least one of them.
\<close>

theorem match_orders_terminates:
  assumes "book_ok s"
  shows "\<exists>n s'. match_orders s = Some s' \<and> s' = (match_step ^^ n) s \<and> \<not> crossing s' \<and>
     n \<le> live_orders s \<and>
     (\<forall>k < n. crossing ((match_step ^^ k) s) \<and>
        live_orders ((match_step ^^ Suc k) s) < live_orders ((match_step ^^ k) s))"
proof -
  let ?P = "\<lambda>s s'. \<exists>n. s' = (match_step ^^ n) s \<and> \<not> crossing s' \<and> n \<le> live_orders s \<and>
     (\<forall>k < n. crossing ((match_step ^^ k) s) \<and>
        live_orders ((match_step ^^ Suc k) s) < live_orders ((match_step ^^ k) s))"
  have "\<exists>s'. match_orders s = Some s' \<and> ?P s s'"
  proof (rule match_orders_rule [OF assms])
    fix s assume "\<not> crossing s"
    then show "?P s s" by (intro exI [of _ 0]) simp
  next
    fix s s'
    assume ok: "book_ok s" and cr: "crossing s" and "?P (match_step s) s'"
    then obtain n where n: "s' = (match_step ^^ n) (match_step s)" "\<not> crossing s'"
      "n \<le> live_orders (match_step s)"
      "\<And>k. k < n \<Longrightarrow> crossing ((match_step ^^ k) (match_step s)) \<and>
        live_orders ((match_step ^^ Suc k) (match_step s)) < live_orders ((match_step ^^ k) (match_step s))"
      by blast
    note dec = match_step_decreases [OF ok cr]
    have "crossing ((match_step ^^ k) s) \<and>
        live_orders ((match_step ^^ Suc k) s) < live_orders ((match_step ^^ k) s)"
      if "k < Suc n" for k
    proof (cases k)
      case 0
      with cr dec show ?thesis by simp
    next
      case (Suc j)
      with that n(4) [of j] show ?thesis by (simp add: funpow_swap1)
    qed
    with n(1,2,3) dec show "?P s s'"
      by (intro exI [of _ "Suc n"]) (simp add: funpow_swap1)
  qed
  then show ?thesis by blast
qed

theorem match_orders_terminates_witness:
  "book_ok (insert_order (insert_order OrderBook_ctor
       \<lparr>order_id = 1, is_buy = True, price = 100, quantity = 10, timestamp_ns = 0\<rparr>)
       \<lparr>order_id = 2, is_buy = False, price = 99, quantity = 4, timestamp_ns = 0\<rparr>) \<and>
   crossing (insert_order (insert_order OrderBook_ctor
       \<lparr>order_id = 1, is_buy = True, price = 100, quantity = 10, timestamp_ns = 0\<rparr>)
       \<lparr>order_id = 2, is_buy = False, price = 99, quantity = 4, timestamp_ns = 0\<rparr>) \<and>
   live_orders (insert_order (insert_order OrderBook_ctor
       \<lparr>order_id = 1, is_buy = True, price = 100, quantity = 10, timestamp_ns = 0\<rparr>)
       \<lparr>order_id = 2, is_buy = False, price = 99, quantity = 4, timestamp_ns = 0\<rparr>) = 2 \<and>
   (\<exists>(n::nat) s'. match_orders (insert_order (insert_order OrderBook_ctor
       \<lparr>order_id = 1, is_buy = True, price = 100, quantity = 10, timestamp_ns = 0\<rparr>)
       \<lparr>order_id = 2, is_buy = False, price = 99, quantity = 4, timestamp_ns = 0\<rparr>) = Some s' \<and>
      s' = (match_step ^^ n) (insert_order (insert_order OrderBook_ctor
       \<lparr>order_id = 1, is_buy = True, price = 100, quantity = 10, timestamp_ns = 0\<rparr>)
       \<lparr>order_id = 2, is_buy = False, price = 99, quantity = 4, timestamp_ns = 0\<rparr>) \<and>
      \<not> crossing s' \<and> n \<le> 2)"
proof -
  let ?u = "insert_order (insert_order OrderBook_ctor
       \<lparr>order_id = 1, is_buy = True, price = 100, quantity = 10, timestamp_ns = 0\<rparr>)
       \<lparr>order_id = 2, is_buy = False, price = 99, quantity = 4, timestamp_ns = 0\<rparr>"
  have ok: "book_ok ?u"
    by (intro insert_order_book_ok book_ok_ctor)
  have cr: "crossing ?u"
    by (simp add: eval_defs)
  have live: "live_orders ?u = 2"
    by (simp add: eval_defs live_orders_def queued_def)
  from match_orders_terminates [OF ok] live obtain n :: nat and s' where
    "match_orders ?u = Some s'" "s' = (match_step ^^ n) ?u" "\<not> crossing s'" "n \<le> 2"
    by auto
  with ok cr live show ?thesis by blast
qed

subsection \<open>The matched counter\<close>

text \<open>
  C9. From a book that was just constructed or just cleared, every sequence of add, cancel
  and amend operations runs to its end, and afterwards \<open>total_orders_matched\<close> is the number
  of trade events emitted by these operations: as a \<open>uint64_t\<close> always, and as a number
  while fewer than \<open>2^64\<close> trades were emitted. (\<open>clear\<close> sets the counter to zero and
  emits nothing.)
\<close>

theorem matched_counts_trades:
  assumes "s0 = OrderBook_ctor \<or> s0 = clear s1" and "Clear \<notin> set cs"
  shows "\<exists>s new. run cs s0 = Some s \<and> trade_log s = trade_log s0 @ new \<and>
     total_orders_matched s = of_nat (length new) \<and>
     (length new < 2 ^ 64 \<longrightarrow> unat (total_orders_matched s) = length new) \<and>
     total_orders_matched (clear s) = 0"
proof -
  from assms(1) have ok: "book_ok s0" "uncrossed s0"
    by (auto simp: book_ok_ctor book_ok_clear uncrossed_ctor uncrossed_clear)
  from assms(1) have z: "total_orders_matched s0 = 0"
    by (auto simp: OrderBook_ctor_def)
  from run_emitted [OF ok assms(2)] obtain s new where "run cs s0 = Some s" "emitted s0 s new"
    by blast
  with z show ?thesis by (auto simp: emitted_def unat_of_nat)
qed

theorem matched_counts_trades_witness:
  "Clear \<notin> set [AddOrder \<lparr>order_id = 1, is_buy = True, price = 100, quantity = 10, timestamp_ns = 0\<rparr>,
                   AddOrder \<lparr>order_id = 2, is_buy = False, price = 99, quantity = 4, timestamp_ns = 0\<rparr>] \<and>
   (\<exists>s. run [AddOrder \<lparr>order_id = 1, is_buy = True, price = 100, quantity = 10, timestamp_ns = 0\<rparr>,
             AddOrder \<lparr>order_id = 2, is_buy = False, price = 99, quantity = 4, timestamp_ns = 0\<rparr>]
          OrderBook_ctor = Some s \<and>
        length (trade_log s) = 1 \<and> total_orders_matched s = 1)"
proof -
  let ?cs = "[AddOrder \<lparr>order_id = 1, is_buy = True, price = 100, quantity = 10, timestamp_ns = 0\<rparr>,
              AddOrder \<lparr>order_id = 2, is_buy = False, price = 99, quantity = 4, timestamp_ns = 0\<rparr>]"
  have nc: "Clear \<notin> set ?cs" by simp
  from matched_counts_trades [OF disjI1 [OF refl] nc] obtain s new where
    s: "run ?cs OrderBook_ctor = Some s" "trade_log s = trade_log OrderBook_ctor @ new"
    "total_orders_matched s = of_nat (length new)" by blast
  have "map_option (\<lambda>s. length (trade_log s)) (run ?cs OrderBook_ctor) = Some 1"
    by (simp add: eval_defs)
  with s(1) have len: "length (trade_log s) = 1" by simp
  with s(2) have "length new = 1" by (simp add: OrderBook_ctor_def)
  with s(3) have "total_orders_matched s = 1" by simp
  with nc s(1) len show ?thesis by blast
qed

lemma run_two_big: "run [AddOrder big_1, AddOrder big_2] OrderBook_ctor = Some two_big"
  by (simp add: add_order_idle crossing_def insert_order_fields)

lemma two_big_fields:
  "bids two_big = [(100, \<lparr>pld_price = 100, orders = [0, 1], total_quantity = 0\<rparr>)]"
  "deref two_big 0 = big_1" "deref two_big 1 = big_2" "deref two_big (Suc 0) = big_2"
  by (simp_all add: eval_defs)

text \<open>
  C4 as stated fails when the quantities of one level add up to \<open>2^64\<close> or more: two bids
  of \<open>2^63\<close> each at price 100 are valid use (positive quantities, different ids, no
  amend), both stay queued at the one bid level, their remaining quantities sum to \<open>2^64\<close>,
  and the level's \<open>total_quantity\<close> is 0.
\<close>

theorem wrapped_total_counterexample:
  "run [AddOrder big_1, AddOrder big_2] OrderBook_ctor = Some two_big \<and>
   bids two_big = [(100, \<lparr>pld_price = 100, orders = [0, 1], total_quantity = 0\<rparr>)] \<and>
   quantity (deref two_big 0) = 9223372036854775808 \<and>
   quantity (deref two_big 1) = 9223372036854775808 \<and>
   0 < quantity (deref two_big 0) \<and> 0 < quantity (deref two_big 1) \<and>
   order_id (deref two_big 0) \<noteq> order_id (deref two_big 1) \<and>
   unat (quantity (deref two_big 0)) + unat (quantity (deref two_big 1)) = 18446744073709551616 \<and>
   unat (total_quantity \<lparr>pld_price = 100, orders = [0, 1], total_quantity = 0\<rparr>) \<noteq>
     unat (quantity (deref two_big 0)) + unat (quantity (deref two_big 1))"
  by (intro conjI, rule run_two_big) (simp_all add: two_big_fields)

subsection \<open>Cancel\<close>

text \<open>
  C5. In every state that a sequence of public operations reaches, \<open>cancel_order id\<close>
  returns false and the state as it was when \<open>id\<close> has no locator entry. Otherwise the
  entry's side index holds a level at the entry's price whose queue holds the order once,
  and the call returns true and a state that differs from the old one in this only: the
  order is removed from that queue, its remaining quantity is subtracted from the level's
  \<open>total_quantity\<close>, the level is erased if its queue is now empty, the locator entry is
  removed and \<open>total_orders_cancelled\<close> is one higher. The trade log and
  \<open>total_orders_matched\<close> are as before: nothing is matched.
\<close>

theorem cancel_order_effect:
  assumes "run cs OrderBook_ctor = Some s"
  shows "(order_lookup s i = None \<longrightarrow> cancel_order s i = (False, s)) \<and>
     (\<forall>e. order_lookup s i = Some e \<longrightarrow>
        (\<exists>m1 l m2.
           (if is_bid e then bids s else asks s) = m1 @ (loc_price e, l) # m2 \<and>
           loc_price e \<notin> fst ` set m1 \<and>
           loc_order e \<in> set (orders l) \<and> distinct (orders l) \<and>
           order_id (deref s (loc_order e)) = i \<and>
           (let l' = l\<lparr>total_quantity := total_quantity l - quantity (deref s (loc_order e)),
                       orders := remove1 (loc_order e) (orders l)\<rparr>;
                m' = m1 @ (if orders l' = [] then [] else [(loc_price e, l')]) @ m2;
                s1 = (if is_bid e then s\<lparr>bids := m'\<rparr> else s\<lparr>asks := m'\<rparr>)
            in cancel_order s i =
                 (True, s1\<lparr>order_lookup := (order_lookup s)(i := None),
                           total_orders_cancelled := total_orders_cancelled s + 1\<rparr>))))"
proof (intro conjI impI allI)
  assume "order_lookup s i = None"
  then show "cancel_order s i = (False, s)" by (rule cancel_order_absent)
next
  fix e
  assume e: "order_lookup s i = Some e"
  note ok = reachable_book_ok(1) [OF assms]
  then have loc: "locator_ok s" and dist: "distinct (handles (bids s) @ handles (asks s))"
    by (simp_all add: book_ok_def)
  let ?m = "if is_bid e then bids s else asks s"
  let ?h = "loc_order e"
  let ?k = "loc_price e"
  let ?q = "quantity (deref s ?h)"
  from loc e have it: "list_iter e = ?h" and oid: "order_id (deref s ?h) = i"
    and lvl: "\<exists>l. map_of ?m ?k = Some l \<and> ?h \<in> set (orders l)"
    unfolding locator_ok_def by blast+
  from lvl obtain l where l: "map_of ?m ?k = Some l" "?h \<in> set (orders l)" by blast
  from map_of_split [OF l(1)] obtain m1 m2 where
    m: "?m = m1 @ (?k, l) # m2" and k: "?k \<notin> fst ` set m1" by blast
  from dist m have dl: "distinct (orders l)"
    by (cases "is_bid e") auto
  have u: "unlink ?k ?h ?q ?m =
      m1 @ (if remove1 ?h (orders l) = [] then [] else [(?k, drop_order ?h ?q l)]) @ m2"
    unfolding m by (rule unlink_append [OF k])
  have "cancel_order s i =
      (True, (if is_bid e then s\<lparr>bids := unlink ?k ?h ?q ?m\<rparr> else s\<lparr>asks := unlink ?k ?h ?q ?m\<rparr>)
               \<lparr>order_lookup := (order_lookup s)(i := None),
                total_orders_cancelled := total_orders_cancelled s + 1\<rparr>)"
    using l(1)
    by (cases "is_bid e")
      (simp_all add: cancel_order_def e Let_def remove_order_from_book_def it deallocate_def)
  then have "let l' = l\<lparr>total_quantity := total_quantity l - ?q, orders := remove1 ?h (orders l)\<rparr>;
                m' = m1 @ (if orders l' = [] then [] else [(?k, l')]) @ m2;
                s1 = (if is_bid e then s\<lparr>bids := m'\<rparr> else s\<lparr>asks := m'\<rparr>)
            in cancel_order s i =
                 (True, s1\<lparr>order_lookup := (order_lookup s)(i := None),
                           total_orders_cancelled := total_orders_cancelled s + 1\<rparr>)"
    unfolding u by (simp add: Let_def drop_order_def)
  with m k l(2) dl oid
  show "\<exists>m1 l m2.
           (if is_bid e then bids s else asks s) = m1 @ (loc_price e, l) # m2 \<and>
           loc_price e \<notin> fst ` set m1 \<and>
           loc_order e \<in> set (orders l) \<and> distinct (orders l) \<and>
           order_id (deref s (loc_order e)) = i \<and>
           (let l' = l\<lparr>total_quantity := total_quantity l - quantity (deref s (loc_order e)),
                       orders := remove1 (loc_order e) (orders l)\<rparr>;
                m' = m1 @ (if orders l' = [] then [] else [(loc_price e, l')]) @ m2;
                s1 = (if is_bid e then s\<lparr>bids := m'\<rparr> else s\<lparr>asks := m'\<rparr>)
            in cancel_order s i =
                 (True, s1\<lparr>order_lookup := (order_lookup s)(i := None),
                           total_orders_cancelled := total_orders_cancelled s + 1\<rparr>))"
    by blast
qed

subsection \<open>Add, then cancel\<close>

text \<open>
  C6. In every state \<open>s\<close> that a sequence of public operations reaches, \<open>add_order\<close> returns
  for every order, fresh or not. When it emitted no trade, cancelling the id of the added
  order succeeds and gives a book with the side indices of \<open>s\<close>, hence with the snapshot of
  \<open>s\<close> at every depth, and with \<open>total_orders_added\<close> and \<open>total_orders_cancelled\<close> each one
  higher than in \<open>s\<close>.
\<close>

theorem add_then_cancel:
  assumes "run cs OrderBook_ctor = Some s"
  shows "\<exists>s1. add_order s ord = Some s1 \<and>
     (trade_log s1 = trade_log s \<longrightarrow>
        (\<exists>s2. cancel_order s1 (order_id ord) = (True, s2) \<and>
           bids s2 = bids s \<and> asks s2 = asks s \<and>
           (\<forall>depth. get_snapshot s2 depth = get_snapshot s depth) \<and>
           total_orders_added s2 = total_orders_added s + 1 \<and>
           total_orders_cancelled s2 = total_orders_cancelled s + 1))"
proof -
  note ok = reachable_book_ok(1) [OF assms]
  from add_order_book_ok [OF ok, of ord] obtain s1 where s1: "add_order s ord = Some s1"
    by blast
  have "\<exists>s2. cancel_order s1 (order_id ord) = (True, s2) \<and>
           bids s2 = bids s \<and> asks s2 = asks s \<and>
           (\<forall>depth. get_snapshot s2 depth = get_snapshot s depth) \<and>
           total_orders_added s2 = total_orders_added s + 1 \<and>
           total_orders_cancelled s2 = total_orders_cancelled s + 1"
    if same: "trade_log s1 = trade_log s"
  proof -
    from s1 have "match_orders (insert_order s ord) = Some s1" by (simp add: add_order_def)
    from match_orders_silent [OF insert_order_book_ok [OF ok] this] same
    have s1': "s1 = insert_order s ord" by simp
    let ?s2 = "snd (cancel_order s1 (order_id ord))"
    note c = cancel_inserted [OF ok, of ord, folded s1']
    from c(1) have "cancel_order s1 (order_id ord) = (True, ?s2)"
      by (cases "cancel_order s1 (order_id ord)") simp
    moreover from c(2,3) have "\<forall>depth. get_snapshot ?s2 depth = get_snapshot s depth"
      by (simp add: get_snapshot_def)
    ultimately show ?thesis using c(2-5) by blast
  qed
  with s1 show ?thesis by blast
qed

subsection \<open>Amend\<close>


text \<open>
  C10. In every state that a sequence of public operations reaches, amending a live order
  to another price returns true with \<open>total_orders_added\<close> and \<open>total_orders_cancelled\<close>
  each incremented by exactly one, so each is higher than before unless it wraps around
  from \<open>2^64 - 1\<close>.
\<close>

theorem amend_price_counters:
  assumes "run cs OrderBook_ctor = Some s" and "order_lookup s i = Some e"
    and "new_price \<noteq> price (deref s (loc_order e))"
  shows "\<exists>s'. amend_order s i new_price new_quantity = Some (True, s') \<and>
     total_orders_added s' = total_orders_added s + 1 \<and>
     total_orders_cancelled s' = total_orders_cancelled s + 1 \<and>
     (total_orders_added s \<noteq> - 1 \<longrightarrow> total_orders_added s < total_orders_added s') \<and>
     (total_orders_cancelled s \<noteq> - 1 \<longrightarrow> total_orders_cancelled s < total_orders_cancelled s')"
proof -
  note ok = reachable_book_ok(1) [OF assms(1)]
  let ?s1 = "snd (cancel_order s i)"
  let ?ord = "(deref s (loc_order e))\<lparr>price := new_price, quantity := new_quantity\<rparr>"
  from add_order_counters [OF cancel_order_book_ok [OF ok, of i], of ?ord]
  obtain s' where s': "add_order ?s1 ?ord = Some s'"
    "total_orders_added s' = total_orders_added ?s1 + 1"
    "total_orders_cancelled s' = total_orders_cancelled ?s1" by blast
  note c = cancel_order_fields [OF assms(2)]
  from s' have "amend_order s i new_price new_quantity = Some (True, s')"
    "total_orders_added s' = total_orders_added s + 1"
    "total_orders_cancelled s' = total_orders_cancelled s + 1"
    by (simp_all add: amend_order_cases(2) [OF assms(2,3)] c)
  then show ?thesis
    using u64_less_succ by (intro exI [of _ s']) simp
qed

lemma run_two_bids: "run [AddOrder bid_1, AddOrder bid_2] OrderBook_ctor = Some two_bids"
  by (simp add: add_order_idle crossing_def insert_order_fields)

lemma two_bids_fields:
  "bids two_bids = [(100, \<lparr>pld_price = 100, orders = [0, 1], total_quantity = 12\<rparr>)]"
  "asks two_bids = []"
  "order_lookup two_bids 1 = Some \<lparr>loc_order = 0, list_iter = 0, is_bid = True, loc_price = 100\<rparr>"
  "order_lookup two_bids 3 = None"
  "deref two_bids 0 = bid_1"
  "total_orders_added two_bids = 2"
  "total_orders_cancelled two_bids = 0"
  by (simp_all add: eval_defs)

theorem cancel_order_effect_witness:
  "run [AddOrder bid_1, AddOrder bid_2] OrderBook_ctor = Some two_bids \<and>
   order_lookup two_bids 3 = None \<and> cancel_order two_bids 3 = (False, two_bids) \<and>
   order_lookup two_bids 1 = Some \<lparr>loc_order = 0, list_iter = 0, is_bid = True, loc_price = 100\<rparr> \<and>
   order_id (deref two_bids 0) = 1 \<and>
   fst (cancel_order two_bids 1) \<and>
   bids (snd (cancel_order two_bids 1)) =
     [(100, \<lparr>pld_price = 100, orders = [1], total_quantity = 7\<rparr>)] \<and>
   order_lookup (snd (cancel_order two_bids 1)) 1 = None \<and>
   total_orders_cancelled (snd (cancel_order two_bids 1)) = 1"
proof -
  note t3 = cancel_order_effect [OF run_two_bids, of 3]
  note t1 = cancel_order_effect [OF run_two_bids, of 1]
  from t3 two_bids_fields(4) have "cancel_order two_bids 3 = (False, two_bids)" by blast
  moreover from t1 two_bids_fields(3) have "order_id (deref two_bids 0) = 1" by auto
  moreover have "fst (cancel_order two_bids 1)"
    "bids (snd (cancel_order two_bids 1)) = [(100, \<lparr>pld_price = 100, orders = [1], total_quantity = 7\<rparr>)]"
    "order_lookup (snd (cancel_order two_bids 1)) 1 = None"
    "total_orders_cancelled (snd (cancel_order two_bids 1)) = 1"
    by (simp_all add: cancel_order_fields [OF two_bids_fields(3)] remove_order_from_book_sides
        two_bids_fields unlink_def)
  ultimately show ?thesis
    using run_two_bids two_bids_fields(3,4) by blast
qed

theorem add_then_cancel_witness:
  "run [AddOrder bid_1, AddOrder bid_2] OrderBook_ctor = Some two_bids \<and>
   (\<exists>s1 s2. add_order two_bids ask_3 = Some s1 \<and> trade_log s1 = trade_log two_bids \<and>
      cancel_order s1 3 = (True, s2) \<and>
      get_snapshot s2 5 = get_snapshot two_bids 5 \<and>
      get_snapshot two_bids 5 = ([\<lparr>pl_price = 100, pl_total_quantity = 12\<rparr>], []) \<and>
      total_orders_added s2 = 3 \<and> total_orders_cancelled s2 = 1)"
proof -
  from add_then_cancel [OF run_two_bids, of ask_3] obtain s1 where
    s1: "add_order two_bids ask_3 = Some s1"
    and c: "trade_log s1 = trade_log two_bids \<Longrightarrow>
      \<exists>s2. cancel_order s1 (order_id ask_3) = (True, s2) \<and>
           bids s2 = bids two_bids \<and> asks s2 = asks two_bids \<and>
           (\<forall>depth. get_snapshot s2 depth = get_snapshot two_bids depth) \<and>
           total_orders_added s2 = total_orders_added two_bids + 1 \<and>
           total_orders_cancelled s2 = total_orders_cancelled two_bids + 1"
    by blast
  have "\<not> crossing (insert_order two_bids ask_3)"
    by (simp add: crossing_def insert_order_fields [of two_bids] two_bids_fields enqueue_def
        PriceLevelData_ctor_def)
  from add_order_idle [OF this] s1 have "s1 = insert_order two_bids ask_3" by simp
  then have same: "trade_log s1 = trade_log two_bids" by simp
  from c [OF same] obtain s2 where
    "cancel_order s1 3 = (True, s2)" "get_snapshot s2 5 = get_snapshot two_bids 5"
    "total_orders_added s2 = 3" "total_orders_cancelled s2 = 1"
    by (auto simp: two_bids_fields)
  moreover have "get_snapshot two_bids 5 = ([\<lparr>pl_price = 100, pl_total_quantity = 12\<rparr>], [])"
    by (simp add: get_snapshot_def snapshot_side_def two_bids_fields)
  ultimately show ?thesis using run_two_bids s1 same by blast
qed


theorem amend_price_counters_witness:
  "run [AddOrder bid_1, AddOrder bid_2] OrderBook_ctor = Some two_bids \<and>
   order_lookup two_bids 1 = Some \<lparr>loc_order = 0, list_iter = 0, is_bid = True, loc_price = 100\<rparr> \<and>
   price (deref two_bids 0) \<noteq> 99 \<and>
   total_orders_added two_bids = 2 \<and> total_orders_cancelled two_bids = 0 \<and>
   (\<exists>s'. amend_order two_bids 1 99 5 = Some (True, s') \<and>
      total_orders_added s' = 3 \<and> total_orders_cancelled s' = 1)"
proof -
  have p: "(99::rat) \<noteq> price (deref two_bids
      (loc_order \<lparr>loc_order = 0, list_iter = 0, is_bid = True, loc_price = 100\<rparr>))"
    by (simp add: two_bids_fields)
  from amend_price_counters [OF run_two_bids two_bids_fields(3) p, of 5]
  obtain s' where "amend_order two_bids 1 99 5 = Some (True, s')"
    "total_orders_added s' = 3" "total_orders_cancelled s' = 1"
    by (auto simp: two_bids_fields)
  then show ?thesis
    using run_two_bids two_bids_fields(3,5,6,7) by (intro conjI exI [of _ s']) simp_all
qed

subsection \<open>The trades of one aggressor\<close>

lemma run_two_asks: "run [AddOrder ask_3, AddOrder ask_4] OrderBook_ctor = Some two_asks"
  by (simp add: add_order_idle crossing_def insert_order_fields)

lemma two_asks_trades:
  "map_option trade_log (add_order two_asks buy_9) =
     Some [\<lparr>buy_order_id = 9, sell_order_id = 3, trade_qty = 7, trade_price = 101\<rparr>,
           \<lparr>buy_order_id = 9, sell_order_id = 4, trade_qty = 1, trade_price = 102\<rparr>]"
  by (simp add: eval_defs)

lemma two_bids_trades:
  "map_option trade_log (add_order two_bids sell_9) =
     Some [\<lparr>buy_order_id = 1, sell_order_id = 9, trade_qty = 5, trade_price = 99\<rparr>,
           \<lparr>buy_order_id = 2, sell_order_id = 9, trade_qty = 3, trade_price = 99\<rparr>]"
  by (simp add: eval_defs)

lemma two_asks_fields:
  "handles (asks two_asks) = [0, 1]" "handles (bids two_asks) = []"
  "deref two_asks 0 = ask_3" "deref two_asks 1 = ask_4" "trade_log two_asks = []"
  "deref two_asks (Suc 0) = ask_4"
  by (simp_all add: eval_defs handles_def)

lemma two_bids_handles:
  "handles (bids two_bids) = [0, 1]" "handles (asks two_bids) = []"
  "deref two_bids 1 = bid_2" "trade_log two_bids = []"
  "deref two_bids (Suc 0) = bid_2"
  by (simp_all add: eval_defs handles_def)

text \<open>
  C1, as the code has it. In every state that a sequence of public operations reaches,
  \<open>add_order\<close> returns, and every trade it emits reports the price of the trade's sell
  order: when the added order is a buy, the trade is between it and an ask that was resting
  in the book, at that ask's price; when the added order is a sell, the trade is at the
  added order's own price, whatever the price of the resting bid. (An \<open>amend_order\<close> that
  changes the price matches through the same \<open>add_order\<close>, called on the state that its
  \<open>cancel_order\<close> left; one that keeps the price emits no trade.)
\<close>

theorem trade_price_is_sell_price:
  assumes "run cs OrderBook_ctor = Some s"
  shows "\<exists>s' new. add_order s ord = Some s' \<and> trade_log s' = trade_log s @ new \<and>
     (\<forall>t \<in> set new.
        (is_buy ord \<longrightarrow>
           buy_order_id t = order_id ord \<and>
           (\<exists>p \<in> set (handles (asks s)).
              sell_order_id t = order_id (deref s p) \<and> trade_price t = price (deref s p))) \<and>
        (\<not> is_buy ord \<longrightarrow> sell_order_id t = order_id ord \<and> trade_price t = price ord))"
proof -
  note ok = reachable_book_ok [OF assms]
  from add_order_trades [OF ok, of ord] obtain s' new n where
    s': "add_order s ord = Some s'" "emitted s s' new"
    and p: "map parties new =
       (if is_buy ord
        then map (\<lambda>p. (order_id ord, order_id (deref s p), price (deref s p)))
               (take n (handles (asks s)))
        else map (\<lambda>p. (order_id (deref s p), order_id ord, price ord))
               (take n (handles (bids s))))"
    by blast
  have "(is_buy ord \<longrightarrow>
           buy_order_id t = order_id ord \<and>
           (\<exists>p \<in> set (handles (asks s)).
              sell_order_id t = order_id (deref s p) \<and> trade_price t = price (deref s p))) \<and>
        (\<not> is_buy ord \<longrightarrow> sell_order_id t = order_id ord \<and> trade_price t = price ord)"
    if "t \<in> set new" for t
  proof -
    from that have "parties t \<in> set (map parties new)" by simp
    with p show ?thesis
      by (auto simp: parties_def dest: in_set_takeD split: if_splits)
  qed
  with s' show ?thesis by (auto simp: emitted_def)
qed

theorem trade_price_is_sell_price_witness:
  "run [AddOrder ask_3, AddOrder ask_4] OrderBook_ctor = Some two_asks \<and>
   run [AddOrder bid_1, AddOrder bid_2] OrderBook_ctor = Some two_bids \<and>
   (\<exists>s'. add_order two_asks buy_9 = Some s' \<and>
      trade_log s' =
        [\<lparr>buy_order_id = 9, sell_order_id = 3, trade_qty = 7, trade_price = 101\<rparr>,
         \<lparr>buy_order_id = 9, sell_order_id = 4, trade_qty = 1, trade_price = 102\<rparr>] \<and>
      (\<forall>t \<in> set (trade_log s'). \<exists>p \<in> set (handles (asks two_asks)).
         sell_order_id t = order_id (deref two_asks p) \<and> trade_price t = price (deref two_asks p))) \<and>
   (\<exists>s'. add_order two_bids sell_9 = Some s' \<and>
      trade_log s' =
        [\<lparr>buy_order_id = 1, sell_order_id = 9, trade_qty = 5, trade_price = 99\<rparr>,
         \<lparr>buy_order_id = 2, sell_order_id = 9, trade_qty = 3, trade_price = 99\<rparr>] \<and>
      (\<forall>t \<in> set (trade_log s'). trade_price t = 99))"
proof -
  from trade_price_is_sell_price [OF run_two_asks, of buy_9] obtain s1 new1 where
    1: "add_order two_asks buy_9 = Some s1" "trade_log s1 = trade_log two_asks @ new1"
    "\<forall>t \<in> set new1. \<exists>p \<in> set (handles (asks two_asks)).
       sell_order_id t = order_id (deref two_asks p) \<and> trade_price t = price (deref two_asks p)"
    by auto
  from trade_price_is_sell_price [OF run_two_bids, of sell_9] obtain s2 new2 where
    2: "add_order two_bids sell_9 = Some s2" "trade_log s2 = trade_log two_bids @ new2"
    "\<forall>t \<in> set new2. trade_price t = 99"
    by auto
  from 1(1,2) two_asks_trades have l1: "trade_log s1 =
        [\<lparr>buy_order_id = 9, sell_order_id = 3, trade_qty = 7, trade_price = 101\<rparr>,
         \<lparr>buy_order_id = 9, sell_order_id = 4, trade_qty = 1, trade_price = 102\<rparr>]"
    and n1: "new1 = trade_log s1"
    by (simp_all add: two_asks_fields)
  from 2(1,2) two_bids_trades have l2: "trade_log s2 =
        [\<lparr>buy_order_id = 1, sell_order_id = 9, trade_qty = 5, trade_price = 99\<rparr>,
         \<lparr>buy_order_id = 2, sell_order_id = 9, trade_qty = 3, trade_price = 99\<rparr>]"
    and n2: "new2 = trade_log s2"
    by (simp_all add: two_bids_handles)
  from 1(1,3) l1 n1 2(1,3) l2 n2 show ?thesis
    using run_two_asks run_two_bids by (intro conjI exI [of _ s1] exI [of _ s2]) simp_all
qed

text \<open>
  C1 as stated fails for a sell aggressor: with \<open>bid_1\<close> and \<open>bid_2\<close> resting at 100, the
  sell order \<open>sell_9\<close> at 99 trades with \<open>bid_1\<close>, the order at the front of the best bid
  level, and the trade reports 99, not the resting bid's price 100.
\<close>

theorem resting_price_counterexample:
  "run [AddOrder bid_1, AddOrder bid_2] OrderBook_ctor = Some two_bids \<and>
   get_best_bid two_bids = Some (100, 12) \<and>
   order_id (deref two_bids 0) = 1 \<and> price (deref two_bids 0) = 100 \<and>
   map_option trade_log (add_order two_bids sell_9) =
     Some [\<lparr>buy_order_id = 1, sell_order_id = 9, trade_qty = 5, trade_price = 99\<rparr>,
           \<lparr>buy_order_id = 2, sell_order_id = 9, trade_qty = 3, trade_price = 99\<rparr>] \<and>
   trade_price \<lparr>buy_order_id = 1, sell_order_id = 9, trade_qty = 5, trade_price = 99\<rparr> \<noteq>
     price (deref two_bids 0)"
proof -
  have "get_best_bid two_bids = Some (100, 12)"
    by (simp add: get_best_bid_def two_bids_fields)
  with run_two_bids two_bids_trades show ?thesis
    by (simp add: two_bids_fields)
qed

text \<open>
  C2. In every state that a sequence of public operations reaches, \<open>add_order\<close> returns, and
  the trades it emits are, in the order of emission, between the added order and the first
  orders of the opposite side, read level by level in the order of the side index (asks by
  ascending price for a buy, bids by descending price for a sell) and inside a level from
  the front of its queue to the back. That is the order of arrival: every queue holds its
  handles in increasing order, the order in which \<open>add_order\<close> allocated them. (An
  \<open>amend_order\<close> that changes the price matches through the same \<open>add_order\<close>.)
\<close>

theorem trades_follow_priority:
  assumes "run cs OrderBook_ctor = Some s"
  shows "\<exists>s' new. add_order s ord = Some s' \<and> trade_log s' = trade_log s @ new \<and>
     sorted_wrt (<) (map fst (asks s)) \<and> sorted_wrt (>) (map fst (bids s)) \<and>
     (\<forall>e \<in> set (bids s) \<union> set (asks s). sorted_wrt (<) (orders (snd e))) \<and>
     (is_buy ord \<longrightarrow>
        map (\<lambda>t. (buy_order_id t, sell_order_id t)) new =
          map (\<lambda>p. (order_id ord, order_id (deref s p))) (take (length new) (handles (asks s)))) \<and>
     (\<not> is_buy ord \<longrightarrow>
        map (\<lambda>t. (buy_order_id t, sell_order_id t)) new =
          map (\<lambda>p. (order_id (deref s p), order_id ord)) (take (length new) (handles (bids s))))"
proof -
  note ok = reachable_book_ok [OF assms]
  from ok(1) have sorted: "sorted_wrt (<) (map fst (asks s))" "sorted_wrt (>) (map fst (bids s))"
    by (simp_all add: book_ok_def)
  from reachable_fifo_ok [OF assms]
  have fifo: "\<forall>e \<in> set (bids s) \<union> set (asks s). sorted_wrt (<) (orders (snd e))"
    by (auto simp: fifo_ok_def fifo_side_def)
  from add_order_trades [OF ok, of ord] obtain s' new n where
    s': "add_order s ord = Some s'" "emitted s s' new"
    and p: "map parties new =
       (if is_buy ord
        then map (\<lambda>p. (order_id ord, order_id (deref s p), price (deref s p)))
               (take n (handles (asks s)))
        else map (\<lambda>p. (order_id (deref s p), order_id ord, price ord))
               (take n (handles (bids s))))"
    by blast
  have pair: "map (\<lambda>t. (buy_order_id t, sell_order_id t)) new =
      map (\<lambda>x. (fst x, fst (snd x))) (map parties new)"
    by (simp add: parties_def)
  have "map (\<lambda>t. (buy_order_id t, sell_order_id t)) new =
          map (\<lambda>p. (order_id ord, order_id (deref s p))) (take (length new) (handles (asks s)))"
    if "is_buy ord"
  proof -
    from p that have "map (\<lambda>t. (buy_order_id t, sell_order_id t)) new =
        map (\<lambda>p. (order_id ord, order_id (deref s p))) (take n (handles (asks s)))"
      unfolding pair by simp
    then show ?thesis by (rule take_length_map)
  qed
  moreover have "map (\<lambda>t. (buy_order_id t, sell_order_id t)) new =
          map (\<lambda>p. (order_id (deref s p), order_id ord)) (take (length new) (handles (bids s)))"
    if "\<not> is_buy ord"
  proof -
    from p that have "map (\<lambda>t. (buy_order_id t, sell_order_id t)) new =
        map (\<lambda>p. (order_id (deref s p), order_id ord)) (take n (handles (bids s)))"
      unfolding pair by simp
    then show ?thesis by (rule take_length_map)
  qed
  ultimately show ?thesis
    using s' sorted fifo by (auto simp: emitted_def)
qed

theorem trades_follow_priority_witness:
  "run [AddOrder ask_3, AddOrder ask_4] OrderBook_ctor = Some two_asks \<and>
   run [AddOrder bid_1, AddOrder bid_2] OrderBook_ctor = Some two_bids \<and>
   map fst (asks two_asks) = [101, 102] \<and> handles (asks two_asks) = [0, 1] \<and>
   map (\<lambda>e. orders (snd e)) (asks two_asks) = [[0], [1]] \<and>
   map (\<lambda>e. orders (snd e)) (bids two_bids) = [[0, 1]] \<and>
   map (\<lambda>p. order_id (deref two_asks p)) [0, 1] = [3, 4] \<and>
   (\<exists>s'. add_order two_asks buy_9 = Some s' \<and>
      map (\<lambda>t. (buy_order_id t, sell_order_id t)) (trade_log s') = [(9, 3), (9, 4)]) \<and>
   map fst (bids two_bids) = [100] \<and> handles (bids two_bids) = [0, 1] \<and>
   map (\<lambda>p. order_id (deref two_bids p)) [0, 1] = [1, 2] \<and>
   (\<exists>s'. add_order two_bids sell_9 = Some s' \<and>
      map (\<lambda>t. (buy_order_id t, sell_order_id t)) (trade_log s') = [(1, 9), (2, 9)])"
proof -
  from trades_follow_priority [OF run_two_asks, of buy_9] obtain s1 new1 where
    1: "add_order two_asks buy_9 = Some s1" "trade_log s1 = trade_log two_asks @ new1"
    "map (\<lambda>t. (buy_order_id t, sell_order_id t)) new1 =
       map (\<lambda>p. (order_id buy_9, order_id (deref two_asks p)))
         (take (length new1) (handles (asks two_asks)))"
    by auto
  from trades_follow_priority [OF run_two_bids, of sell_9] obtain s2 new2 where
    2: "add_order two_bids sell_9 = Some s2" "trade_log s2 = trade_log two_bids @ new2"
    "map (\<lambda>t. (buy_order_id t, sell_order_id t)) new2 =
       map (\<lambda>p. (order_id (deref two_bids p), order_id sell_9))
         (take (length new2) (handles (bids two_bids)))"
    by auto
  from 1(1,2) two_asks_trades have "length new1 = 2" "new1 = trade_log s1"
    by (simp_all add: two_asks_fields)
  with 1(3) have t1: "map (\<lambda>t. (buy_order_id t, sell_order_id t)) (trade_log s1) = [(9, 3), (9, 4)]"
    by (simp add: two_asks_fields)
  from 2(1,2) two_bids_trades have "length new2 = 2" "new2 = trade_log s2"
    by (simp_all add: two_bids_handles)
  with 2(3) have t2: "map (\<lambda>t. (buy_order_id t, sell_order_id t)) (trade_log s2) = [(1, 9), (2, 9)]"
    by (simp add: two_bids_handles two_bids_fields)
  have k: "map fst (asks two_asks) = [101, 102]" "map fst (bids two_bids) = [100]"
    "map (\<lambda>e. orders (snd e)) (asks two_asks) = [[0], [1]]"
    "map (\<lambda>e. orders (snd e)) (bids two_bids) = [[0, 1]]"
    by (simp_all add: eval_defs)
  from 1(1) t1 2(1) t2 k show ?thesis
    using run_two_asks run_two_bids
    by (intro conjI exI [of _ s1] exI [of _ s2])
      (simp_all add: two_asks_fields two_bids_handles two_bids_fields)
qed

end
